theory Spec2Isabelle
  imports Complex_Main "HOL-Library.Sublist"
begin

section \<open>Key sequences (core/key.go)\<close>

subsection \<open>Keys, events and bindings\<close>

text \<open>A \<open>Key\<close> is a Go string; a \<open>char\<close> is one byte of it.\<close>

type_synonym Key = string

text \<open>
  Modelled from the spec: the event identifiers are declared in a file of the package that
  is not among the sources; these are the identifiers that \<open>defaultKeyManagers\<close> registers,
  with \<open>EventNop\<close> for "no event".
\<close>

datatype EventType =
    EventNop | EventQuit
  | EventCursorUp | EventCursorDown | EventCursorLeft | EventCursorRight
  | EventCursorPrev | EventCursorNext | EventCursorHead | EventCursorEnd
  | EventScrollUp | EventScrollDown
  | EventPageUp | EventPageDown | EventPageUpHalf | EventPageDownHalf
  | EventPageTop | EventPageEnd | EventJumpTo | EventJumpBack
  | EventDeleteByte | EventDeletePrevByte | EventIncrement | EventDecrement
  | EventStartInsert | EventStartInsertHead | EventStartAppend | EventStartAppendEnd
  | EventStartReplaceByte | EventStartReplace
  | EventExitInsert | EventBackspace | EventDelete
  | EventStartCmdline | EventSpaceCmdline | EventBackspaceCmdline | EventDeleteCmdline
  | EventDeleteWordCmdline | EventClearToHeadCmdline | EventClearCmdline
  | EventExitCmdline | EventExecuteCmdline

text \<open>
  Modelled from the spec: a resolved command is an event type with a count; a literal
  \<open>Event{Type: t}\<close> leaves the count at Go's zero value.
\<close>

record Event =
  Type :: EventType
  Count :: int

text \<open>Modelled from the spec: the four interaction modes.\<close>

datatype Mode = ModeNormal | ModeInsert | ModeReplace | ModeCmdline

record keyEvent =
  ke_keys :: "Key list"
  ke_event :: EventType

datatype cmp_result = keysEq | keysPending | keysNeq

text \<open>
  \<open>keyEvent.cmp\<close>: the loop runs over the binding's keys with the index \<open>i\<close> into \<open>ks\<close>;
  the recursion walks both lists in step, so \<open>i \<ge> len(ks)\<close> is "\<open>ks\<close> is used up".
\<close>

fun cmp_loop :: "Key list \<Rightarrow> Key list \<Rightarrow> cmp_result" where
  "cmp_loop [] ks = keysEq"
| "cmp_loop (k # kes) [] = keysPending"
| "cmp_loop (k # kes) (k' # ks) = (if k \<noteq> k' then keysNeq else cmp_loop kes ks)"

definition cmp :: "keyEvent \<Rightarrow> Key list \<Rightarrow> cmp_result" where
  "cmp ke ks = (if length (ke_keys ke) < length ks then keysNeq else cmp_loop (ke_keys ke) ks)"

record KeyManager =
  km_keys :: "Key list"
  km_keyEvents :: "keyEvent list"
  km_count :: bool

definition NewKeyManager :: "bool \<Rightarrow> KeyManager" where
  "NewKeyManager c = \<lparr>km_keys = [], km_keyEvents = [], km_count = c\<rparr>"

definition Register :: "EventType \<Rightarrow> Key list \<Rightarrow> KeyManager \<Rightarrow> KeyManager" where
  "Register ev ks km = km\<lparr>km_keyEvents := km_keyEvents km @ [\<lparr>ke_keys = ks, ke_event = ev\<rparr>]\<rparr>"

subsection \<open>strconv.ParseInt\<close>

text \<open>
  Go's \<open>strconv.ParseInt(s, 10, 64)\<close>, the value only (both callers drop the error): an
  optional sign, then decimal digits; 0 on a syntax error (no digits, or another character);
  on a range error the largest magnitude of that sign.
\<close>

definition isDigit :: "char \<Rightarrow> bool" where
  "isDigit b = ((48::nat) \<le> of_char b \<and> of_char b \<le> (57::nat))"

definition digit_val :: "char \<Rightarrow> nat" where
  "digit_val c = of_char c - 48"

definition decimal :: "string \<Rightarrow> nat" where
  "decimal s = foldl (\<lambda>n c. 10 * n + digit_val c) 0 s"

definition MaxInt64_const :: int where
  "MaxInt64_const = 2 ^ 63 - 1"

definition MinInt64_const :: int where
  "MinInt64_const = - (2 ^ 63)"

definition ParseInt :: "string \<Rightarrow> int" where
  "ParseInt s =
     (let neg = (s \<noteq> [] \<and> hd s = CHR ''-'');
          ds = (if s \<noteq> [] \<and> (hd s = CHR ''+'' \<or> hd s = CHR ''-'') then tl s else s)
      in if ds \<noteq> [] \<and> list_all isDigit ds then
           (if neg then (if int (decimal ds) > 2 ^ 63 then MinInt64_const else - int (decimal ds))
            else (if int (decimal ds) > MaxInt64_const then MaxInt64_const else int (decimal ds)))
         else 0)"

subsection \<open>Press\<close>

text \<open>
  The inner loop of \<open>Press\<close> that collects \<open>numStr\<close>: \<open>j\<close> is the index of the key in the
  window, and the loop stops at the first key that is not accepted.
\<close>

fun numStr_loop :: "nat \<Rightarrow> Key list \<Rightarrow> string" where
  "numStr_loop j [] = []"
| "numStr_loop j (k # ks) =
     (if length k = 1 \<and>
         (((49::nat) \<le> of_char (k ! 0) \<and> of_char (k ! 0) \<le> (57::nat)) \<or> (k ! 0 = CHR ''0'' \<and> j > 0))
      then k @ numStr_loop (Suc j) ks
      else [])"

text \<open>
  The loop over the bindings: \<open>None\<close> when every binding reports \<open>keysNeq\<close>, otherwise
  what \<open>Press\<close> returns at the first binding that reports pending or equal.
\<close>

fun scan_keyEvents :: "keyEvent list \<Rightarrow> Key list \<Rightarrow> int \<Rightarrow> KeyManager \<Rightarrow> (Event \<times> KeyManager) option" where
  "scan_keyEvents [] keys count km = None"
| "scan_keyEvents (ke # kes) keys count km =
     (case cmp ke keys of
        keysPending \<Rightarrow> Some (\<lparr>Type = EventNop, Count = 0\<rparr>, km)
      | keysEq \<Rightarrow> Some (\<lparr>Type = ke_event ke, Count = count\<rparr>, km\<lparr>km_keys := []\<rparr>)
      | keysNeq \<Rightarrow> scan_keyEvents kes keys count km)"

function Press_loop :: "KeyManager \<Rightarrow> nat \<Rightarrow> Event \<times> KeyManager" where
  "Press_loop km i =
     (if i < length (km_keys km) then
        (let keys = drop i (km_keys km);
             numStr = (if km_count km then numStr_loop 0 keys else []);
             keys' = (if km_count km then drop (length numStr) keys else keys);
             count = (if km_count km then ParseInt numStr else 0)
         in case scan_keyEvents (km_keyEvents km) keys' count km of
              Some r \<Rightarrow> r
            | None \<Rightarrow> Press_loop km (Suc i))
      else (\<lparr>Type = EventNop, Count = 0\<rparr>, km\<lparr>km_keys := []\<rparr>))"
  by pat_completeness auto
termination
  by (relation "measure (\<lambda>(km, i). length (km_keys km) - i)") auto

declare Press_loop.simps [simp del]

definition Press :: "Key \<Rightarrow> KeyManager \<Rightarrow> Event \<times> KeyManager" where
  "Press k km = Press_loop (km\<lparr>km_keys := km_keys km @ [k]\<rparr>) 0"

subsection \<open>The default key managers\<close>

text \<open>
  \<open>NewKeyManager\<close> returns a pointer and \<open>defaultKeyManagers\<close> stores pointers in its map,
  so the key managers live in a store: a reference is an index into the heap, a list of
  key managers. \<open>Register\<close> and \<open>Press\<close> through a reference update the heap at that index.
\<close>

type_synonym ref = nat
type_synonym heap = "KeyManager list"

definition new_km :: "bool \<Rightarrow> heap \<Rightarrow> ref \<times> heap" where
  "new_km c h = (length h, h @ [NewKeyManager c])"

definition register_at :: "ref \<Rightarrow> EventType \<Rightarrow> Key list \<Rightarrow> heap \<Rightarrow> heap" where
  "register_at r ev ks h = h[r := Register ev ks (h ! r)]"

definition press_at :: "ref \<Rightarrow> Key \<Rightarrow> heap \<Rightarrow> Event \<times> heap" where
  "press_at r k h = (case Press k (h ! r) of (e, km) \<Rightarrow> (e, h[r := km]))"

definition register_all :: "ref \<Rightarrow> (EventType \<times> Key list) list \<Rightarrow> heap \<Rightarrow> heap" where
  "register_all r regs h = foldl (\<lambda>h (ev, ks). register_at r ev ks h) h regs"

text \<open>The three runs of \<open>km.Register\<close> calls of \<open>defaultKeyManagers\<close>, in their order.\<close>

definition normal_registrations :: "(EventType \<times> Key list) list" where
  "normal_registrations =
   [(EventQuit, [''Z'', ''Q'']),
    (EventCursorUp, [''up'']), (EventCursorDown, [''down'']),
    (EventCursorLeft, [''left'']), (EventCursorRight, [''right'']),
    (EventPageUp, [''pgup'']), (EventPageDown, [''pgdn'']),
    (EventPageTop, [''home'']), (EventPageEnd, [''end'']),
    (EventCursorUp, [''k'']), (EventCursorDown, [''j'']),
    (EventCursorLeft, [''h'']), (EventCursorRight, [''l'']),
    (EventCursorPrev, [''b'']), (EventCursorNext, [''w'']),
    (EventCursorHead, [''0'']), (EventCursorHead, [''^'']), (EventCursorEnd, [''$'']),
    (EventScrollUp, [''c-y'']), (EventScrollDown, [''c-e'']),
    (EventPageUp, [''c-b'']), (EventPageDown, [''c-f'']),
    (EventPageUpHalf, [''c-u'']), (EventPageDownHalf, [''c-d'']),
    (EventPageTop, [''g'', ''g'']), (EventPageEnd, [''G'']),
    (EventJumpTo, [''c-]'']), (EventJumpBack, [''c-t'']),
    (EventDeleteByte, [''x'']), (EventDeletePrevByte, [''X'']),
    (EventIncrement, [''c-a'']), (EventIncrement, [''+'']),
    (EventDecrement, [''c-x'']), (EventDecrement, [''-'']),
    (EventStartInsert, [''i'']), (EventStartInsertHead, [''I'']),
    (EventStartAppend, [''a'']), (EventStartAppendEnd, [''A'']),
    (EventStartReplaceByte, [''r'']), (EventStartReplace, [''R'']),
    (EventStartCmdline, ['':''])]"

definition insert_registrations :: "(EventType \<times> Key list) list" where
  "insert_registrations =
   [(EventExitInsert, [''escape'']), (EventExitInsert, [''c-c'']),
    (EventCursorUp, [''up'']), (EventCursorDown, [''down'']),
    (EventCursorLeft, [''left'']), (EventCursorRight, [''right'']),
    (EventPageUp, [''pgup'']), (EventPageDown, [''pgdn'']),
    (EventPageTop, [''home'']), (EventPageEnd, [''end'']),
    (EventBackspace, [''backspace'']), (EventBackspace, [''backspace2'']),
    (EventDelete, [''delete''])]"

definition cmdline_registrations :: "(EventType \<times> Key list) list" where
  "cmdline_registrations =
   [(EventSpaceCmdline, [''space'']),
    (EventCursorLeft, [''left'']), (EventCursorLeft, [''c-b'']),
    (EventCursorRight, [''right'']), (EventCursorRight, [''c-f'']),
    (EventCursorHead, [''home'']), (EventCursorHead, [''c-a'']),
    (EventCursorEnd, [''end'']), (EventCursorEnd, [''c-e'']),
    (EventBackspaceCmdline, [''c-h'']), (EventBackspaceCmdline, [''backspace'']),
    (EventBackspaceCmdline, [''backspace2'']),
    (EventDeleteCmdline, [''delete'']), (EventDeleteWordCmdline, [''c-w'']),
    (EventClearToHeadCmdline, [''c-u'']), (EventClearCmdline, [''c-k'']),
    (EventExitCmdline, [''escape'']), (EventExitCmdline, [''c-c'']),
    (EventExecuteCmdline, [''enter'']), (EventExecuteCmdline, [''c-j'']),
    (EventExecuteCmdline, [''c-m''])]"

definition defaultKeyManagers :: "(Mode \<Rightarrow> ref option) \<times> heap" where
  "defaultKeyManagers =
     (let kms = (\<lambda>m. None);
          (km, h) = new_km True [];
          h = register_all km normal_registrations h;
          kms = kms(ModeNormal := Some km);
          (km, h) = new_km False h;
          h = register_all km insert_registrations h;
          kms = kms(ModeInsert := Some km);
          kms = kms(ModeReplace := Some km);
          (km, h) = new_km False h;
          h = register_all km cmdline_registrations h;
          kms = kms(ModeCmdline := Some km)
      in (kms, h))"

text \<open>
  A key pressed in a mode goes to \<open>kms[mode].Press(k)\<close>; a mode without an entry would be a
  nil pointer, \<open>None\<close> here.
\<close>

definition press_mode :: "(Mode \<Rightarrow> ref option) \<Rightarrow> Mode \<Rightarrow> Key \<Rightarrow> heap \<Rightarrow> (Event \<times> heap) option" where
  "press_mode kms m k h = (case kms m of None \<Rightarrow> None | Some r \<Rightarrow> Some (press_at r k h))"

text \<open>The key manager that a mode's entry of the default map points to.\<close>

definition default_km :: "Mode \<Rightarrow> KeyManager" where
  "default_km m = snd defaultKeyManagers ! the (fst defaultKeyManagers m)"

section \<open>The window (core/window.go)\<close>

subsection \<open>int64 arithmetic\<close>

text \<open>
  The fields and counts are Go \<open>int64\<close>: integers from \<open>-2^63\<close> to \<open>2^63 - 1\<close>, whose
  sums, differences and products wrap around. \<open>i64\<close> is the wrap-around; Go's \<open>/\<close> truncates
  towards zero and \<open>%\<close> is the remainder of that division (a division by zero panics, which
  each operation below checks before it divides).
\<close>

definition i64 :: "int \<Rightarrow> int" where
  "i64 x = (x + 2 ^ 63) mod 2 ^ 64 - 2 ^ 63"

definition in64 :: "int \<Rightarrow> bool" where
  "in64 x = (- (2 ^ 63) \<le> x \<and> x < 2 ^ 63)"

definition add64 :: "int \<Rightarrow> int \<Rightarrow> int" where
  "add64 a b = i64 (a + b)"

definition sub64 :: "int \<Rightarrow> int \<Rightarrow> int" where
  "sub64 a b = i64 (a - b)"

definition mul64 :: "int \<Rightarrow> int \<Rightarrow> int" where
  "mul64 a b = i64 (a * b)"

definition tdiv :: "int \<Rightarrow> int \<Rightarrow> int" where
  "tdiv a b = sgn a * sgn b * (\<bar>a\<bar> div \<bar>b\<bar>)"

definition div64 :: "int \<Rightarrow> int \<Rightarrow> int" where
  "div64 a b = i64 (tdiv a b)"

definition mod64 :: "int \<Rightarrow> int \<Rightarrow> int" where
  "mod64 a b = a - b * tdiv a b"

text \<open>
  Modelled from the spec: \<open>util.MaxInt64\<close> and \<open>util.MinInt64\<close> are in a package that is
  not among the sources; the specification uses them as the larger and the smaller of two
  integers ("use n if n \<ge> 1 else 1").
\<close>

definition MaxInt64 :: "int \<Rightarrow> int \<Rightarrow> int" where
  "MaxInt64 a b = (if a < b then b else a)"

definition MinInt64 :: "int \<Rightarrow> int \<Rightarrow> int" where
  "MinInt64 a b = (if b < a then b else a)"

subsection \<open>The window and its buffer\<close>

text \<open>
  Modelled from the spec: the byte-access collaborator (package \<open>buffer\<close>, not among the
  sources) gives positional reads of a byte sequence and fails on an I/O error other than
  the end of the data. Its state here is the byte sequence and whether reads fail.
\<close>

record buffer =
  buf_data :: string
  buf_fails :: bool

text \<open>A saved position is the pair of cursor and offset.\<close>

type_synonym position = "int \<times> int"

record Window =
  buffer :: buffer
  name :: string
  basename :: string
  height :: int
  width :: int
  offset :: int
  cursor :: int
  length_w :: int
  stack :: "position list"
  mode :: Mode

text \<open>
  \<open>readBytes\<close>: a slice of \<open>len\<close> zero bytes, filled from position \<open>pos\<close> with as many
  bytes as the data has there; \<open>None\<close> is the error return.
\<close>

definition readBytes :: "Window \<Rightarrow> int \<Rightarrow> nat \<Rightarrow> (nat \<times> string) option" where
  "readBytes w pos len =
     (if buf_fails (buffer w) \<or> pos < 0 then None
      else (let got = take len (drop (nat pos) (buf_data (buffer w)))
            in Some (length got, got @ replicate (len - length got) (CHR 0x00))))"

subsection \<open>Cursor movement\<close>

text \<open>
  Every operation returns the window after it, or \<open>None\<close> where the Go code panics (an
  integer division by zero).
\<close>

definition cursorUp :: "int \<Rightarrow> Window \<Rightarrow> Window option" where
  "cursorUp count w =
     (if width w = 0 then None
      else (let w = w\<lparr>cursor := sub64 (cursor w)
                      (mul64 (MinInt64 (MaxInt64 count 1) (div64 (cursor w) (width w))) (width w))\<rparr>
            in if cursor w < offset w
               then Some (w\<lparr>offset := mul64 (div64 (cursor w) (width w)) (width w)\<rparr>)
               else Some w))"

definition cursorDown :: "int \<Rightarrow> Window \<Rightarrow> Window option" where
  "cursorDown count w =
     (if width w = 0 then None
      else (let w = w\<lparr>cursor := add64 (cursor w)
                      (MinInt64
                        (mul64 (MinInt64 (MaxInt64 count 1)
                                  (sub64 (div64 (sub64 (MaxInt64 (length_w w) 1) 1) (width w))
                                         (div64 (cursor w) (width w))))
                               (width w))
                        (sub64 (sub64 (MaxInt64 (length_w w) 1) 1) (cursor w)))\<rparr>
            in if cursor w \<ge> add64 (offset w) (mul64 (height w) (width w))
               then Some (w\<lparr>offset := mul64 (div64 (add64 (sub64 (cursor w) (mul64 (height w) (width w))) (width w))
                                                    (width w)) (width w)\<rparr>)
               else Some w))"

definition cursorLeft :: "int \<Rightarrow> Window \<Rightarrow> Window option" where
  "cursorLeft count w =
     (if width w = 0 then None
      else Some (w\<lparr>cursor := sub64 (cursor w) (MinInt64 (MaxInt64 count 1) (mod64 (cursor w) (width w)))\<rparr>))"

definition cursorRight :: "int \<Rightarrow> Window \<Rightarrow> Window option" where
  "cursorRight count w =
     (if width w = 0 then None
      else Some (w\<lparr>cursor := add64 (cursor w)
                   (MinInt64
                      (MinInt64 (MaxInt64 count 1)
                                (sub64 (sub64 (width w) 1) (mod64 (cursor w) (width w))))
                      (sub64 (sub64 (MaxInt64 (length_w w) 1) 1) (cursor w)))\<rparr>))"

definition cursorPrev :: "int \<Rightarrow> Window \<Rightarrow> Window option" where
  "cursorPrev count w =
     (let w = w\<lparr>cursor := sub64 (cursor w) (MinInt64 (MaxInt64 count 1) (cursor w))\<rparr>
      in if cursor w < offset w
         then (if width w = 0 then None
               else Some (w\<lparr>offset := mul64 (div64 (cursor w) (width w)) (width w)\<rparr>))
         else Some w)"

definition cursorNext :: "int \<Rightarrow> Window \<Rightarrow> Window option" where
  "cursorNext count w =
     (let w = w\<lparr>cursor := add64 (cursor w)
                  (MinInt64 (MaxInt64 count 1) (sub64 (sub64 (MaxInt64 (length_w w) 1) 1) (cursor w)))\<rparr>
      in if cursor w \<ge> add64 (offset w) (mul64 (height w) (width w))
         then (if width w = 0 then None
               else Some (w\<lparr>offset := mul64 (div64 (add64 (sub64 (cursor w) (mul64 (height w) (width w))) (width w))
                                                    (width w)) (width w)\<rparr>))
         else Some w)"

definition cursorHead :: "int \<Rightarrow> Window \<Rightarrow> Window option" where
  "cursorHead count w =
     (if width w = 0 then None
      else Some (w\<lparr>cursor := sub64 (cursor w) (mod64 (cursor w) (width w))\<rparr>))"

definition cursorEnd :: "int \<Rightarrow> Window \<Rightarrow> Window option" where
  "cursorEnd count w =
     (if width w = 0 then None
      else (let w = w\<lparr>cursor := MinInt64
                        (sub64 (mul64 (add64 (div64 (cursor w) (width w)) (MaxInt64 count 1)) (width w)) 1)
                        (sub64 (MaxInt64 (length_w w) 1) 1)\<rparr>
            in if cursor w \<ge> add64 (offset w) (mul64 (height w) (width w))
               then Some (w\<lparr>offset := mul64 (div64 (add64 (sub64 (cursor w) (mul64 (height w) (width w))) (width w))
                                                    (width w)) (width w)\<rparr>)
               else Some w))"

subsection \<open>Scrolling and paging\<close>

definition scrollUp :: "int \<Rightarrow> Window \<Rightarrow> Window option" where
  "scrollUp count w =
     (if width w = 0 then None
      else (let w = w\<lparr>offset := sub64 (offset w)
                      (mul64 (MinInt64 (MaxInt64 count 1) (div64 (offset w) (width w))) (width w))\<rparr>
            in if cursor w \<ge> add64 (offset w) (mul64 (height w) (width w))
               then Some (w\<lparr>cursor := sub64 (cursor w)
                            (mul64 (add64 (div64 (sub64 (sub64 (cursor w) (offset w)) (mul64 (height w) (width w)))
                                                 (width w)) 1)
                                   (width w))\<rparr>)
               else Some w))"

definition scrollDown :: "int \<Rightarrow> Window \<Rightarrow> Window option" where
  "scrollDown count w =
     (if width w = 0 then None
      else (let h = sub64 (div64 (sub64 (add64 (MaxInt64 (length_w w) 1) (width w)) 1) (width w)) (height w);
                w = w\<lparr>offset := add64 (offset w)
                      (mul64 (MinInt64 (MaxInt64 count 1) (sub64 h (div64 (offset w) (width w)))) (width w))\<rparr>
            in if cursor w < offset w
               then Some (w\<lparr>cursor := add64 (cursor w)
                            (MinInt64
                               (mul64 (div64 (sub64 (add64 (sub64 (offset w) (cursor w)) (width w)) 1) (width w))
                                      (width w))
                               (sub64 (sub64 (MaxInt64 (length_w w) 1) 1) (cursor w)))\<rparr>)
               else Some w))"

definition pageUp :: "Window \<Rightarrow> Window option" where
  "pageUp w =
     (let w = w\<lparr>offset := MaxInt64 (sub64 (offset w) (mul64 (sub64 (height w) 2) (width w))) 0\<rparr>
      in if offset w = 0 then Some (w\<lparr>cursor := 0\<rparr>)
         else if cursor w \<ge> add64 (offset w) (mul64 (height w) (width w))
         then Some (w\<lparr>cursor := add64 (offset w) (mul64 (sub64 (height w) 1) (width w))\<rparr>)
         else Some w)"

definition pageDown :: "Window \<Rightarrow> Window option" where
  "pageDown w =
     (if width w = 0 then None
      else (let offset' = MaxInt64
                  (mul64 (sub64 (div64 (sub64 (add64 (length_w w) (width w)) 1) (width w)) (height w)) (width w)) 0;
                w = w\<lparr>offset := MinInt64 (add64 (offset w) (mul64 (sub64 (height w) 2) (width w))) offset'\<rparr>
            in if cursor w < offset w then Some (w\<lparr>cursor := offset w\<rparr>)
               else if offset w = offset'
               then Some (w\<lparr>cursor := mul64 (sub64 (div64 (sub64 (add64 (MaxInt64 (length_w w) 1) (width w)) 1)
                                                              (width w)) 1)
                                               (width w)\<rparr>)
               else Some w))"

definition pageUpHalf :: "Window \<Rightarrow> Window option" where
  "pageUpHalf w =
     (let w = w\<lparr>offset := MaxInt64 (sub64 (offset w) (mul64 (MaxInt64 (div64 (height w) 2) 1) (width w))) 0\<rparr>
      in if offset w = 0 then Some (w\<lparr>cursor := 0\<rparr>)
         else if cursor w \<ge> add64 (offset w) (mul64 (height w) (width w))
         then Some (w\<lparr>cursor := add64 (offset w) (mul64 (sub64 (height w) 1) (width w))\<rparr>)
         else Some w)"

definition pageDownHalf :: "Window \<Rightarrow> Window option" where
  "pageDownHalf w =
     (if width w = 0 then None
      else (let offset' = MaxInt64
                  (mul64 (sub64 (div64 (sub64 (add64 (length_w w) (width w)) 1) (width w)) (height w)) (width w)) 0;
                w = w\<lparr>offset := MinInt64 (add64 (offset w) (mul64 (MaxInt64 (div64 (height w) 2) 1) (width w))) offset'\<rparr>
            in if cursor w < offset w then Some (w\<lparr>cursor := offset w\<rparr>)
               else if offset w = offset'
               then Some (w\<lparr>cursor := mul64 (sub64 (div64 (sub64 (add64 (MaxInt64 (length_w w) 1) (width w)) 1)
                                                              (width w)) 1)
                                               (width w)\<rparr>)
               else Some w))"

definition pageTop :: "Window \<Rightarrow> Window option" where
  "pageTop w = Some (w\<lparr>offset := 0, cursor := 0\<rparr>)"

definition pageEnd :: "Window \<Rightarrow> Window option" where
  "pageEnd w =
     (if width w = 0 then None
      else Some (w\<lparr>offset := MaxInt64
                     (mul64 (sub64 (div64 (sub64 (add64 (length_w w) (width w)) 1) (width w)) (height w)) (width w)) 0,
                   cursor := mul64 (sub64 (div64 (sub64 (add64 (MaxInt64 (length_w w) 1) (width w)) 1) (width w)) 1)
                                   (width w)\<rparr>))"

subsection \<open>Jumps\<close>

definition isWhite :: "char \<Rightarrow> bool" where
  "isWhite b = (b = CHR 0x00 \<or> b = CHR 0x09 \<or> b = CHR 0x0A \<or> b = CHR 0x0D \<or> b = CHR 0x20)"

text \<open>
  The three loops of \<open>jumpTo\<close> over the bytes read, \<open>n\<close> being \<open>2*s\<close>: forward over white
  bytes, backward to the start of the digits, forward to their end.
\<close>

function skip_white :: "string \<Rightarrow> nat \<Rightarrow> nat \<Rightarrow> nat" where
  "skip_white bytes n i = (if i < n \<and> isWhite (bytes ! i) then skip_white bytes n (Suc i) else i)"
  by pat_completeness auto
termination
  by (relation "measure (\<lambda>(bytes, n, i). n - i)") auto

fun digits_start :: "string \<Rightarrow> nat \<Rightarrow> nat" where
  "digits_start bytes 0 = 0"
| "digits_start bytes (Suc i) = (if isDigit (bytes ! i) then digits_start bytes i else Suc i)"

function digits_end :: "string \<Rightarrow> nat \<Rightarrow> nat \<Rightarrow> nat" where
  "digits_end bytes n j = (if j < n \<and> isDigit (bytes ! j) then digits_end bytes n (Suc j) else j)"
  by pat_completeness auto
termination
  by (relation "measure (\<lambda>(bytes, n, j). n - j)") auto

declare skip_white.simps [simp del] digits_end.simps [simp del]

definition jumpTo :: "Window \<Rightarrow> Window option" where
  "jumpTo w =
     (let s = 50 in
      case readBytes w (MaxInt64 (sub64 (cursor w) (int s)) 0) (2 * s) of
        None \<Rightarrow> Some w
      | Some (n, bytes) \<Rightarrow>
          (let i = skip_white bytes (2 * s) s in
           if i = 2 * s \<or> \<not> isDigit (bytes ! i) then Some w
           else (let i = digits_start bytes i;
                     j = digits_end bytes (2 * s) i in
                 if j = 2 * s then Some w
                 else (let offset' = ParseInt (take (j - i) (drop i bytes)) in
                       if offset' \<le> 0 \<or> length_w w \<le> offset' then Some w
                       else if width w = 0 then None
                       else Some (w\<lparr>stack := stack w @ [(cursor w, offset w)],
                                     cursor := offset',
                                     offset := MaxInt64
                                       (sub64 (sub64 offset' (mod64 offset' (width w)))
                                              (mul64 (MaxInt64 (div64 (height w) 3) 0) (width w))) 0\<rparr>)))))"

definition jumpBack :: "Window \<Rightarrow> Window option" where
  "jumpBack w =
     (if length (stack w) = 0 then Some w
      else Some (w\<lparr>cursor := fst (stack w ! (length (stack w) - 1)),
                   offset := snd (stack w ! (length (stack w) - 1)),
                   stack := take (length (stack w) - 1) (stack w)\<rparr>))"

definition startInsert :: "Window \<Rightarrow> Window" where
  "startInsert w = w\<lparr>mode := ModeInsert\<rparr>"

definition exitInsert :: "Window \<Rightarrow> Window" where
  "exitInsert w = w\<lparr>mode := ModeNormal\<rparr>"

text \<open>
  The navigation operations of the window as one type, each with the count it takes, and
  the operation that each of them names.
\<close>

datatype navigation =
    CursorUp int | CursorDown int | CursorLeft int | CursorRight int
  | CursorPrev int | CursorNext int | CursorHead int | CursorEnd int
  | ScrollUp int | ScrollDown int
  | PageUp | PageDown | PageUpHalf | PageDownHalf | PageTop | PageEnd
  | JumpTo | JumpBack

fun navigate :: "navigation \<Rightarrow> Window \<Rightarrow> Window option" where
  "navigate (CursorUp n) w = cursorUp n w"
| "navigate (CursorDown n) w = cursorDown n w"
| "navigate (CursorLeft n) w = cursorLeft n w"
| "navigate (CursorRight n) w = cursorRight n w"
| "navigate (CursorPrev n) w = cursorPrev n w"
| "navigate (CursorNext n) w = cursorNext n w"
| "navigate (CursorHead n) w = cursorHead n w"
| "navigate (CursorEnd n) w = cursorEnd n w"
| "navigate (ScrollUp n) w = scrollUp n w"
| "navigate (ScrollDown n) w = scrollDown n w"
| "navigate PageUp w = pageUp w"
| "navigate PageDown w = pageDown w"
| "navigate PageUpHalf w = pageUpHalf w"
| "navigate PageDownHalf w = pageDownHalf w"
| "navigate PageTop w = pageTop w"
| "navigate PageEnd w = pageEnd w"
| "navigate JumpTo w = jumpTo w"
| "navigate JumpBack w = jumpBack w"

section \<open>The resolver as the specification words it\<close>

text \<open>
  The definitions of this section follow the specification's description of \<open>press\<close>
  (its section 4.1 and the repeat-count rule of its section 3), not the code; the theorems
  below compare them with \<open>Press\<close>.

  A digit token is a key of one ASCII digit. The digit run of a suffix-window starts with a
  digit other than "0" and goes on through every following digit token, "0" included.
\<close>

definition digit_token :: "Key \<Rightarrow> bool" where
  "digit_token k = (length k = 1 \<and> isDigit (hd k))"

definition spec_digit_run :: "Key list \<Rightarrow> Key list" where
  "spec_digit_run win =
     (case win of
        [] \<Rightarrow> []
      | k # rest \<Rightarrow> if digit_token k \<and> k \<noteq> ''0'' then k # takeWhile digit_token rest else [])"

datatype verdict = Exact | Pending | NoMatch

definition spec_compare :: "Key list \<Rightarrow> Key list \<Rightarrow> verdict" where
  "spec_compare rest binding =
     (if rest = binding then Exact else if strict_prefix rest binding then Pending else NoMatch)"

definition spec_remainder :: "bool \<Rightarrow> Key list \<Rightarrow> Key list" where
  "spec_remainder counting win = (if counting then drop (length (spec_digit_run win)) win else win)"

definition spec_count :: "bool \<Rightarrow> Key list \<Rightarrow> int" where
  "spec_count counting win =
     (if counting \<and> spec_digit_run win \<noteq> [] then ParseInt (concat (spec_digit_run win)) else 0)"

definition spec_verdict :: "KeyManager \<Rightarrow> Key list \<Rightarrow> nat \<times> keyEvent \<Rightarrow> verdict" where
  "spec_verdict km buf t = spec_compare (spec_remainder (km_count km) (drop (fst t) buf)) (ke_keys (snd t))"

definition spec_trials :: "KeyManager \<Rightarrow> nat \<Rightarrow> nat \<Rightarrow> (nat \<times> keyEvent) list" where
  "spec_trials km i n = concat (map (\<lambda>i. map (Pair i) (km_keyEvents km)) [i..<n])"

definition press_spec :: "Key \<Rightarrow> KeyManager \<Rightarrow> Event \<times> KeyManager" where
  "press_spec k km =
     (let buf = km_keys km @ [k] in
      case find (\<lambda>t. spec_verdict km buf t \<noteq> NoMatch) (spec_trials km 0 (length buf)) of
        None \<Rightarrow> (\<lparr>Type = EventNop, Count = 0\<rparr>, km\<lparr>km_keys := []\<rparr>)
      | Some t \<Rightarrow>
          (if spec_verdict km buf t = Pending
           then (\<lparr>Type = EventNop, Count = 0\<rparr>, km\<lparr>km_keys := buf\<rparr>)
           else (\<lparr>Type = ke_event (snd t), Count = spec_count (km_count km) (drop (fst t) buf)\<rparr>,
                 km\<lparr>km_keys := []\<rparr>)))"

definition spec_outcome :: "KeyManager \<Rightarrow> (nat \<times> keyEvent) option \<Rightarrow> Event \<times> KeyManager" where
  "spec_outcome km r =
     (case r of
        None \<Rightarrow> (\<lparr>Type = EventNop, Count = 0\<rparr>, km\<lparr>km_keys := []\<rparr>)
      | Some t \<Rightarrow>
          (if spec_verdict km (km_keys km) t = Pending
           then (\<lparr>Type = EventNop, Count = 0\<rparr>, km)
           else (\<lparr>Type = ke_event (snd t), Count = spec_count (km_count km) (drop (fst t) (km_keys km))\<rparr>,
                 km\<lparr>km_keys := []\<rparr>)))"

text \<open>The longest binding registered with a key manager.\<close>

definition longest_binding :: "KeyManager \<Rightarrow> nat" where
  "longest_binding km = foldr max (map (\<lambda>ke. length (ke_keys ke)) (km_keyEvents km)) 0"

text \<open>Keys fed one after the other, each to the key manager of the mode it is typed in.\<close>

fun feed :: "(Mode \<Rightarrow> ref option) \<Rightarrow> (Mode \<times> Key) list \<Rightarrow> heap \<Rightarrow> heap option" where
  "feed kms [] h = Some h"
| "feed kms ((m, k) # mks) h =
     (case press_mode kms m k h of None \<Rightarrow> None | Some (e, h') \<Rightarrow> feed kms mks h')"

fun mk_keyEvent :: "EventType \<times> Key list \<Rightarrow> keyEvent" where
  "mk_keyEvent (ev, ks) = \<lparr>ke_keys = ks, ke_event = ev\<rparr>"

text \<open>The three key managers that \<open>defaultKeyManagers\<close> builds, written out.\<close>

definition normal_km :: KeyManager where
  "normal_km = \<lparr>km_keys = [], km_keyEvents = map mk_keyEvent normal_registrations, km_count = True\<rparr>"

definition insert_km :: KeyManager where
  "insert_km = \<lparr>km_keys = [], km_keyEvents = map mk_keyEvent insert_registrations, km_count = False\<rparr>"

definition cmdline_km :: KeyManager where
  "cmdline_km = \<lparr>km_keys = [], km_keyEvents = map mk_keyEvent cmdline_registrations, km_count = False\<rparr>"

section \<open>The window's invariants as the specification words them\<close>

text \<open>
  The data-model invariants of a viewport/cursor state: width and height are positive, the
  offset is a non-negative multiple of the width, the cursor is an address of the data
  (address 0 when there is none), and the cursor is in the displayed window.
\<close>

definition invariants :: "Window \<Rightarrow> bool" where
  "invariants w =
     (0 < width w \<and> 0 < height w \<and>
      0 \<le> offset w \<and> offset w mod width w = 0 \<and>
      0 \<le> cursor w \<and> cursor w \<le> max (length_w w - 1) 0 \<and>
      offset w \<le> cursor w \<and> cursor w < offset w + height w * width w)"

definition contained :: "Window \<Rightarrow> bool" where
  "contained w = (offset w \<le> cursor w \<and> cursor w < offset w + height w * width w)"

text \<open>
  The largest offset of the offset-bounds invariant, \<open>max(\<lceil>length/width\<rceil> - height, 0) * width\<close>,
  and the invariant itself.
\<close>

definition max_offset :: "Window \<Rightarrow> int" where
  "max_offset w = max (\<lceil>real_of_int (length_w w) / real_of_int (width w)\<rceil> - height w) 0 * width w"

definition offset_bounds :: "Window \<Rightarrow> bool" where
  "offset_bounds w = (0 \<le> offset w \<and> offset w \<le> max_offset w \<and> offset w mod width w = 0)"

text \<open>
  The sizes for which no operation leaves the range of \<open>int64\<close>: a length that is not
  negative, and length, page size and width that together stay below \<open>2^63\<close>.
\<close>

definition no_overflow :: "Window \<Rightarrow> bool" where
  "no_overflow w = (0 \<le> length_w w \<and> length_w w + height w * width w + width w < 2 ^ 63)"

text \<open>A saved position that the window with its present width and height contains.\<close>

definition position_contained :: "Window \<Rightarrow> position \<Rightarrow> bool" where
  "position_contained w p = (snd p \<le> fst p \<and> fst p < snd p + height w * width w)"

definition position_bounded :: "Window \<Rightarrow> position \<Rightarrow> bool" where
  "position_bounded w p = (0 \<le> snd p \<and> snd p \<le> max_offset w \<and> snd p mod width w = 0)"

text \<open>
  What each operation needs beyond the invariants for the cursor to stay in the window: a
  count is an \<open>int64\<close>; the row that \<open>cursorEnd\<close> computes from its count stays below
  \<open>2^63\<close>; \<open>pageUp\<close> and \<open>pageDown\<close> have a page of two rows or more; the positions that
  \<open>jumpBack\<close> may restore are contained.
\<close>

fun nav_ok :: "navigation \<Rightarrow> Window \<Rightarrow> bool" where
  "nav_ok (CursorUp n) w = in64 n"
| "nav_ok (CursorDown n) w = in64 n"
| "nav_ok (CursorLeft n) w = in64 n"
| "nav_ok (CursorRight n) w = in64 n"
| "nav_ok (CursorPrev n) w = in64 n"
| "nav_ok (CursorNext n) w = in64 n"
| "nav_ok (CursorHead n) w = in64 n"
| "nav_ok (CursorEnd n) w = (in64 n \<and> length_w w + max n 1 * width w < 2 ^ 63)"
| "nav_ok (ScrollUp n) w = in64 n"
| "nav_ok (ScrollDown n) w = in64 n"
| "nav_ok PageUp w = (2 \<le> height w)"
| "nav_ok PageDown w = (2 \<le> height w)"
| "nav_ok JumpBack w = list_all (position_contained w) (stack w)"
| "nav_ok op w = True"

text \<open>
  What each operation needs beyond the invariants for the offset to stay within its bounds:
  a count is an \<open>int64\<close>; \<open>pageUp\<close> and \<open>pageDown\<close> have a page of two rows or more;
  \<open>scrollDown\<close> needs data that fills a page; the positions that \<open>jumpBack\<close> may restore
  have offsets within the bounds.
\<close>

fun bounds_ok :: "navigation \<Rightarrow> Window \<Rightarrow> bool" where
  "bounds_ok (CursorUp n) w = in64 n"
| "bounds_ok (CursorDown n) w = in64 n"
| "bounds_ok (CursorLeft n) w = in64 n"
| "bounds_ok (CursorRight n) w = in64 n"
| "bounds_ok (CursorPrev n) w = in64 n"
| "bounds_ok (CursorNext n) w = in64 n"
| "bounds_ok (CursorHead n) w = in64 n"
| "bounds_ok (CursorEnd n) w = in64 n"
| "bounds_ok (ScrollUp n) w = in64 n"
| "bounds_ok (ScrollDown n) w =
     (in64 n \<and> height w \<le> (max (length_w w) 1 + width w - 1) div width w)"
| "bounds_ok PageUp w = (2 \<le> height w)"
| "bounds_ok PageDown w = (2 \<le> height w)"
| "bounds_ok JumpBack w = list_all (position_bounded w) (stack w)"
| "bounds_ok op w = True"

text \<open>Example windows: width, height, length, offset, cursor, jump stack and data.\<close>

definition window_of :: "int \<Rightarrow> int \<Rightarrow> int \<Rightarrow> int \<Rightarrow> int \<Rightarrow> position list \<Rightarrow> string \<Rightarrow> Window" where
  "window_of W H L off c st data =
     \<lparr>buffer = \<lparr>buf_data = data, buf_fails = False\<rparr>, name = ''f'', basename = ''f'',
      height = H, width = W, offset = off, cursor = c, length_w = L, stack = st,
      mode = ModeNormal\<rparr>"

text \<open>Data of 400 bytes: blanks, with the digits "399" at address 50.\<close>

definition data_399 :: string where
  "data_399 = replicate 50 (CHR 0x20) @ ''399'' @ replicate 347 (CHR 0x20)"

text \<open>Data of 51 bytes: fifty digits "1" and an "x" at address 50.\<close>

definition data_x :: string where
  "data_x = replicate 50 (CHR ''1'') @ ''x''"

section \<open>Auxiliary definitions for the proofs\<close>

text \<open>
  \<open>pageUp\<close> and \<open>pageUpHalf\<close> differ only in the step by which the offset moves, and so do
  \<open>pageDown\<close> and \<open>pageDownHalf\<close>: the bodies with the step as a parameter.
\<close>

definition page_up_by :: "int \<Rightarrow> Window \<Rightarrow> Window option" where
  "page_up_by s w =
     (let w = w\<lparr>offset := MaxInt64 (sub64 (offset w) s) 0\<rparr>
      in if offset w = 0 then Some (w\<lparr>cursor := 0\<rparr>)
         else if cursor w \<ge> add64 (offset w) (mul64 (height w) (width w))
         then Some (w\<lparr>cursor := add64 (offset w) (mul64 (sub64 (height w) 1) (width w))\<rparr>)
         else Some w)"

definition page_down_by :: "int \<Rightarrow> Window \<Rightarrow> Window option" where
  "page_down_by s w =
     (let offset' = MaxInt64
            (mul64 (sub64 (div64 (sub64 (add64 (length_w w) (width w)) 1) (width w)) (height w)) (width w)) 0;
          w = w\<lparr>offset := MinInt64 (add64 (offset w) s) offset'\<rparr>
      in if cursor w < offset w then Some (w\<lparr>cursor := offset w\<rparr>)
         else if offset w = offset'
         then Some (w\<lparr>cursor := mul64 (sub64 (div64 (sub64 (add64 (MaxInt64 (length_w w) 1) (width w)) 1)
                                                        (width w)) 1)
                                         (width w)\<rparr>)
         else Some w)"

text \<open>
  The result of an operation that leaves the cursor in the window: the window with a new
  cursor \<open>c'\<close> and a new offset \<open>o'\<close>, the cursor an address of the data inside the
  displayed window, the offset a multiple of the width that is not negative (when \<open>low\<close>
  holds) and not beyond the largest offset if it was not before.
\<close>

definition lands :: "bool \<Rightarrow> Window \<Rightarrow> Window option \<Rightarrow> bool" where
  "lands low w r =
     (\<exists>c' o'. r = Some (w\<lparr>cursor := c', offset := o'\<rparr>) \<and>
        o' \<le> c' \<and> c' < o' + height w * width w \<and>
        0 \<le> c' \<and> c' \<le> max (length_w w - 1) 0 \<and>
        (low \<longrightarrow> 0 \<le> o') \<and> o' mod width w = 0 \<and>
        (offset w \<le> max_offset w \<longrightarrow> o' \<le> max_offset w))"

text \<open>The data fills a page: it has at least as many rows as the window.\<close>

definition fills_page :: "Window \<Rightarrow> bool" where
  "fills_page w = (height w \<le> (max (length_w w) 1 + width w - 1) div width w)"

text \<open>
  The first half of \<open>jumpTo\<close> on its own: the digit run that it locates in the bytes read
  around the cursor, \<open>None\<close> when the read fails or no run is found.
\<close>

definition located_run :: "Window \<Rightarrow> string option" where
  "located_run w =
     (let s = 50 in
      case readBytes w (MaxInt64 (sub64 (cursor w) (int s)) 0) (2 * s) of
        None \<Rightarrow> None
      | Some (n, bytes) \<Rightarrow>
          (let i = skip_white bytes (2 * s) s in
           if i = 2 * s \<or> \<not> isDigit (bytes ! i) then None
           else (let i = digits_start bytes i;
                     j = digits_end bytes (2 * s) i in
                 if j = 2 * s then None
                 else Some (take (j - i) (drop i bytes)))))"

text \<open>The window after a jump to the address \<open>v\<close>, as the second half of \<open>jumpTo\<close> builds it.\<close>

definition jumped :: "int \<Rightarrow> Window \<Rightarrow> Window" where
  "jumped v w =
     w\<lparr>stack := stack w @ [(cursor w, offset w)],
       cursor := v,
       offset := MaxInt64
         (sub64 (sub64 v (mod64 v (width w)))
                (mul64 (MaxInt64 (div64 (height w) 3) 0) (width w))) 0\<rparr>"

text \<open>The bytes that \<open>jumpTo\<close> scans: 100 bytes from address \<open>max(cursor - 50, 0)\<close>, zero
  where the data has ended.\<close>

definition scan_start :: "Window \<Rightarrow> nat" where
  "scan_start w = nat (max (cursor w - 50) 0)"

definition scanned :: "Window \<Rightarrow> string" where
  "scanned w =
     take 100 (drop (scan_start w) (buf_data (buffer w))) @
     replicate (100 - length (take 100 (drop (scan_start w) (buf_data (buffer w))))) (CHR 0x00)"

text \<open>Successive jumps, each of which found an address, and successive jumps back.\<close>

fun jump_chain :: "Window \<Rightarrow> Window list \<Rightarrow> bool" where
  "jump_chain w [] = True"
| "jump_chain w (w' # ws) = (jumpTo w = Some w' \<and> w' \<noteq> w \<and> jump_chain w' ws)"

fun jumpBacks :: "nat \<Rightarrow> Window \<Rightarrow> Window option" where
  "jumpBacks 0 w = Some w"
| "jumpBacks (Suc k) w = (case jumpBack w of None \<Rightarrow> None | Some w' \<Rightarrow> jumpBacks k w')"

section \<open>Properties of the resolver\<close>

subsection \<open>Press and the specification's algorithm\<close>

lemma cmp_loop_prefix:
  "length ks \<le> length kes \<Longrightarrow>
   cmp_loop kes ks = (if ks = kes then keysEq else if prefix ks kes then keysPending else keysNeq)"
  by (induction kes ks rule: cmp_loop.induct) auto

lemma cmp_spec_compare:
  "cmp ke ks = (case spec_compare ks (ke_keys ke) of
                  Exact \<Rightarrow> keysEq | Pending \<Rightarrow> keysPending | NoMatch \<Rightarrow> keysNeq)"
proof (cases "length (ke_keys ke) < length ks")
  case True
  then have "ks \<noteq> ke_keys ke" and "\<not> prefix ks (ke_keys ke)"
    by (auto dest: prefix_length_le)
  with True show ?thesis
    by (simp add: cmp_def spec_compare_def strict_prefix_def)
next
  case False
  then show ?thesis
    by (simp add: cmp_def spec_compare_def strict_prefix_def cmp_loop_prefix)
qed

lemma of_char_48: "(of_char c = (48::nat)) = (c = CHR ''0'')"
proof
  assume "of_char c = (48::nat)"
  then have "of_char c = (of_char (CHR ''0'') :: nat)" by simp
  then show "c = CHR ''0''" by (simp only: of_char_eq_iff)
qed simp

lemma accept_later:
  "(length k = 1 \<and> (((49::nat) \<le> of_char (k ! 0) \<and> of_char (k ! 0) \<le> (57::nat)) \<or> (k ! 0 = CHR ''0'' \<and> Suc j > 0)))
   = digit_token k"
proof (cases k)
  case Nil
  then show ?thesis by (simp add: digit_token_def)
next
  case (Cons c cs)
  have "((49::nat) \<le> of_char c \<and> of_char c \<le> (57::nat) \<or> c = CHR ''0'') = isDigit c"
    unfolding isDigit_def of_char_48 [symmetric] by auto
  with Cons show ?thesis by (simp add: digit_token_def)
qed

lemma accept_first:
  "(length k = 1 \<and> (((49::nat) \<le> of_char (k ! 0) \<and> of_char (k ! 0) \<le> (57::nat)) \<or> (k ! 0 = CHR ''0'' \<and> (0::nat) > 0)))
   = (digit_token k \<and> k \<noteq> ''0'')"
proof (cases k)
  case Nil
  then show ?thesis by (simp add: digit_token_def)
next
  case (Cons c cs)
  have "((49::nat) \<le> of_char c \<and> of_char c \<le> (57::nat)) = (isDigit c \<and> c \<noteq> CHR ''0'')"
    unfolding isDigit_def of_char_48 [symmetric] by auto
  with Cons show ?thesis by (auto simp add: digit_token_def)
qed

lemma numStr_loop_Suc:
  "numStr_loop (Suc j) ks = concat (takeWhile digit_token ks)"
proof (induction ks arbitrary: j)
  case Nil
  show ?case by simp
next
  case (Cons k ks)
  show ?case
    unfolding numStr_loop.simps accept_later by (simp add: Cons.IH)
qed

lemma numStr_loop_0: "numStr_loop 0 win = concat (spec_digit_run win)"
proof (cases win)
  case Nil
  then show ?thesis by (simp add: spec_digit_run_def)
next
  case (Cons k ks)
  show ?thesis
    unfolding Cons numStr_loop.simps accept_first
    by (cases "digit_token k \<and> k \<noteq> ''0''") (auto simp add: spec_digit_run_def numStr_loop_Suc)
qed

lemma length_concat_digits: "\<forall>k\<in>set ks. digit_token k \<Longrightarrow> length (concat ks) = length ks"
  by (induction ks) (auto simp: digit_token_def)

lemma spec_digit_run_tokens: "k \<in> set (spec_digit_run win) \<Longrightarrow> digit_token k"
  by (auto simp: spec_digit_run_def split: list.splits if_splits dest: set_takeWhileD)

lemma length_numStr: "length (numStr_loop 0 win) = length (spec_digit_run win)"
  unfolding numStr_loop_0 by (rule length_concat_digits) (simp add: spec_digit_run_tokens)

lemma ParseInt_Nil: "ParseInt [] = 0"
  by (simp add: ParseInt_def)

lemma scan_keyEvents_find:
  "scan_keyEvents kes keys count km =
     (case find (\<lambda>ke. spec_compare keys (ke_keys ke) \<noteq> NoMatch) kes of
        None \<Rightarrow> None
      | Some ke \<Rightarrow>
          if spec_compare keys (ke_keys ke) = Pending
          then Some (\<lparr>Type = EventNop, Count = 0\<rparr>, km)
          else Some (\<lparr>Type = ke_event ke, Count = count\<rparr>, km\<lparr>km_keys := []\<rparr>))"
  by (induction kes) (auto simp: cmp_spec_compare split: verdict.splits)

lemma find_append_case:
  "find P (xs @ ys) = (case find P xs of None \<Rightarrow> find P ys | Some x \<Rightarrow> Some x)"
  by (induction xs) auto

lemma find_map_Pair:
  "find P (map (Pair i) xs) = map_option (Pair i) (find (\<lambda>x. P (i, x)) xs)"
  by (induction xs) auto

lemma spec_trials_step:
  "i < n \<Longrightarrow> spec_trials km i n = map (Pair i) (km_keyEvents km) @ spec_trials km (Suc i) n"
  by (simp add: spec_trials_def upt_conv_Cons)

lemma spec_trials_done: "\<not> i < n \<Longrightarrow> spec_trials km i n = []"
  by (simp add: spec_trials_def)

lemma Press_loop_find:
  "Press_loop km i =
     spec_outcome km (find (\<lambda>t. spec_verdict km (km_keys km) t \<noteq> NoMatch)
                        (spec_trials km i (length (km_keys km))))"
proof (induction km i rule: Press_loop.induct)
  case (1 km i)
  show ?case
  proof (cases "i < length (km_keys km)")
    case False
    then show ?thesis
      by (subst Press_loop.simps) (simp add: spec_trials_done spec_outcome_def)
  next
    case True
    let ?win = "drop i (km_keys km)"
    let ?rest = "spec_remainder (km_count km) ?win"
    let ?cnt = "spec_count (km_count km) ?win"
    have rest: "(if km_count km
                 then drop (length (if km_count km then numStr_loop 0 ?win else [])) ?win
                 else ?win) = ?rest"
      by (simp add: spec_remainder_def length_numStr)
    have cnt: "(if km_count km
                then ParseInt (if km_count km then numStr_loop 0 ?win else [])
                else 0) = ?cnt"
      by (simp add: spec_count_def numStr_loop_0 ParseInt_Nil)
    have unfold: "Press_loop km i =
        (case scan_keyEvents (km_keyEvents km) ?rest ?cnt km of
           Some r \<Rightarrow> r | None \<Rightarrow> Press_loop km (Suc i))"
      by (subst Press_loop.simps) (simp only: True if_True Let_def rest cnt)
    show ?thesis
    proof (cases "scan_keyEvents (km_keyEvents km) ?rest ?cnt km")
      case None
      then have nf: "find (\<lambda>ke. spec_compare ?rest (ke_keys ke) \<noteq> NoMatch) (km_keyEvents km) = None"
        by (simp add: scan_keyEvents_find split: option.splits if_splits)
      have "Press_loop km i = Press_loop km (Suc i)"
        by (simp only: unfold None option.case)
      also have "\<dots> = spec_outcome km (find (\<lambda>t. spec_verdict km (km_keys km) t \<noteq> NoMatch)
                        (spec_trials km (Suc i) (length (km_keys km))))"
      proof (rule "1.IH" [OF True refl refl refl refl])
        show "scan_keyEvents (km_keyEvents km)
                (if km_count km
                 then drop (length (if km_count km then numStr_loop 0 ?win else [])) ?win
                 else ?win)
                (if km_count km
                 then ParseInt (if km_count km then numStr_loop 0 ?win else [])
                 else 0) km = None"
          using None by (simp only: rest cnt)
      qed
      finally show ?thesis
        by (simp add: spec_trials_step [OF True] find_append_case find_map_Pair spec_verdict_def nf)
    next
      case (Some r)
      then obtain ke where
        f: "find (\<lambda>ke. spec_compare ?rest (ke_keys ke) \<noteq> NoMatch) (km_keyEvents km) = Some ke"
        by (auto simp: scan_keyEvents_find split: option.splits)
      have "Press_loop km i = r"
        by (simp add: unfold Some)
      moreover have "r = spec_outcome km (Some (i, ke))"
        using Some by (auto simp add: scan_keyEvents_find f spec_outcome_def spec_verdict_def split: if_splits)
      ultimately show ?thesis
        by (simp add: spec_trials_step [OF True] find_append_case find_map_Pair spec_verdict_def f)
    qed
  qed
qed

lemma Press_refines_spec: "Press k km = press_spec k km"
  unfolding Press_def press_spec_def Press_loop_find
  by (simp add: spec_outcome_def spec_verdict_def spec_trials_def Let_def split: option.splits)

subsection \<open>The default key managers, evaluated\<close>

lemma register_all_eq:
  "r < length h \<Longrightarrow>
   register_all r regs h = h[r := (h ! r)\<lparr>km_keyEvents := km_keyEvents (h ! r) @ map mk_keyEvent regs\<rparr>]"
proof (induction regs arbitrary: h)
  case Nil
  then show ?case by (simp add: register_all_def)
next
  case (Cons p regs)
  have step: "register_all r (p # regs) h = register_all r regs (register_at r (fst p) (snd p) h)"
    by (simp add: register_all_def case_prod_beta)
  have len: "r < length (register_at r (fst p) (snd p) h)"
    using Cons.prems by (simp add: register_at_def)
  show ?case
    unfolding step Cons.IH [OF len]
    using Cons.prems by (cases p) (simp add: register_at_def Register_def)
qed

lemma default_heap: "snd defaultKeyManagers = [normal_km, insert_km, cmdline_km]"
  by (simp add: defaultKeyManagers_def new_km_def register_all_eq NewKeyManager_def nth_append
      normal_km_def insert_km_def cmdline_km_def)

lemma default_refs:
  "fst defaultKeyManagers ModeNormal = Some 0"
  "fst defaultKeyManagers ModeInsert = Some 1"
  "fst defaultKeyManagers ModeReplace = Some 1"
  "fst defaultKeyManagers ModeCmdline = Some 2"
  by (simp_all add: defaultKeyManagers_def new_km_def register_all_eq)

lemma default_km_normal: "default_km ModeNormal = normal_km"
  by (simp add: default_km_def default_heap default_refs)

lemmas press_eval =
  Let_def Press_def Press_loop.simps normal_km_def normal_registrations_def cmp_def
  ParseInt_def isDigit_def decimal_def digit_val_def MaxInt64_const_def

lemma press_g: "Press ''g'' normal_km = (\<lparr>Type = EventNop, Count = 0\<rparr>, normal_km\<lparr>km_keys := [''g'']\<rparr>)"
  by (simp add: press_eval)

lemma press_g_g: "Press ''g'' (normal_km\<lparr>km_keys := [''g'']\<rparr>) = (\<lparr>Type = EventPageTop, Count = 0\<rparr>, normal_km)"
  by (simp add: press_eval)

lemma press_g_x: "Press ''x'' (normal_km\<lparr>km_keys := [''g'']\<rparr>) = (\<lparr>Type = EventDeleteByte, Count = 0\<rparr>, normal_km)"
  by (simp add: press_eval)

lemma press_1: "Press ''1'' normal_km = (\<lparr>Type = EventNop, Count = 0\<rparr>, normal_km\<lparr>km_keys := [''1'']\<rparr>)"
  by (simp add: press_eval)

lemma press_1_2:
  "Press ''2'' (normal_km\<lparr>km_keys := [''1'']\<rparr>) = (\<lparr>Type = EventNop, Count = 0\<rparr>, normal_km\<lparr>km_keys := [''1'', ''2'']\<rparr>)"
  by (simp add: press_eval)

lemma press_1_2_j:
  "Press ''j'' (normal_km\<lparr>km_keys := [''1'', ''2'']\<rparr>) = (\<lparr>Type = EventCursorDown, Count = 12\<rparr>, normal_km)"
  by (simp add: press_eval)

lemma press_1_2_3:
  "Press ''3'' (normal_km\<lparr>km_keys := [''1'', ''2'']\<rparr>) =
     (\<lparr>Type = EventNop, Count = 0\<rparr>, normal_km\<lparr>km_keys := [''1'', ''2'', ''3'']\<rparr>)"
  by (simp add: press_eval)

lemma press_0: "Press ''0'' normal_km = (\<lparr>Type = EventCursorHead, Count = 0\<rparr>, normal_km)"
  by (simp add: press_eval)

lemma longest_normal: "longest_binding normal_km = 2"
  by (simp add: longest_binding_def normal_km_def normal_registrations_def)

subsection \<open>The claims about the resolver\<close>

text \<open>
  C2 (resolver press algorithm). For every key manager, whatever its bindings and its
  pending sequence, \<open>Press\<close> computes what the specification's algorithm computes: the key is
  appended; the suffix-windows are tried from position 0 upward, and within a window the
  bindings in registration order, after the digit run is stripped when counting is enabled;
  the first trial that is not a mismatch decides: a binding of which the remainder is a
  strict prefix (the empty remainder included) returns no event and keeps the pending
  sequence, a binding equal to the remainder clears the pending sequence and returns its
  event with the parsed count (0 without digits or without counting); without such a trial
  the pending sequence is cleared and no event is returned. In the default Normal mode, "g"
  is held, a second "g" resolves to page-top, and "x" after "g" resolves to delete-byte, the
  pending sequence being cleared both times.
\<close>

theorem Press_algorithm:
  "Press k km = press_spec k km \<and>
   Press ''g'' (default_km ModeNormal) =
     (\<lparr>Type = EventNop, Count = 0\<rparr>, (default_km ModeNormal)\<lparr>km_keys := [''g'']\<rparr>) \<and>
   Press ''g'' ((default_km ModeNormal)\<lparr>km_keys := [''g'']\<rparr>) =
     (\<lparr>Type = EventPageTop, Count = 0\<rparr>, default_km ModeNormal) \<and>
   Press ''x'' ((default_km ModeNormal)\<lparr>km_keys := [''g'']\<rparr>) =
     (\<lparr>Type = EventDeleteByte, Count = 0\<rparr>, default_km ModeNormal)"
proof (intro conjI)
  show "Press k km = press_spec k km"
    by (rule Press_refines_spec)
qed (simp_all only: default_km_normal press_g press_g_g press_g_x)

text \<open>The theorem at "x" after a pending "g" in Normal mode.\<close>

theorem Press_algorithm_witness:
  "press_spec ''x'' ((default_km ModeNormal)\<lparr>km_keys := [''g'']\<rparr>) =
     (\<lparr>Type = EventDeleteByte, Count = 0\<rparr>, default_km ModeNormal)"
  using Press_algorithm [of "''x''" "(default_km ModeNormal)\<lparr>km_keys := [''g'']\<rparr>"]
  by metis

lemma ParseInt_digits:
  "ds \<noteq> [] \<Longrightarrow> list_all isDigit ds \<Longrightarrow> ParseInt ds = min (int (decimal ds)) (2 ^ 63 - 1)"
proof -
  assume ne: "ds \<noteq> []" and all: "list_all isDigit ds"
  then have d: "isDigit (hd ds)" by (cases ds) auto
  have "hd ds \<noteq> CHR ''+''" "hd ds \<noteq> CHR ''-''"
    using d by (auto simp: isDigit_def)
  with ne all show ?thesis
    by (simp add: ParseInt_def MaxInt64_const_def Let_def min_def)
qed

text \<open>
  C3 (repeat-count parsing). With counting enabled the digits that \<open>Press\<close> strips from a
  suffix-window are the window's digit run: single-digit keys, the first of them "1".."9",
  the later ones "0".."9"; a window that starts with "0" has no digit run, so that "0" is
  matched as a key. The count is the decimal value of the run (capped at the largest
  \<open>int64\<close>), 0 for an empty run. In the default Normal mode "1", "2" are held and "j" then
  resolves to cursor-down with count 12, and "0" alone resolves to row-head.
\<close>

theorem count_parsing:
  "numStr_loop 0 win = concat (spec_digit_run win) \<and>
   length (numStr_loop 0 win) = length (spec_digit_run win) \<and>
   numStr_loop 0 (''0'' # win) = [] \<and>
   ParseInt (numStr_loop 0 win) = (if spec_digit_run win = [] then 0
      else min (int (decimal (concat (spec_digit_run win)))) (2 ^ 63 - 1)) \<and>
   Press ''1'' (default_km ModeNormal) =
     (\<lparr>Type = EventNop, Count = 0\<rparr>, (default_km ModeNormal)\<lparr>km_keys := [''1'']\<rparr>) \<and>
   Press ''2'' ((default_km ModeNormal)\<lparr>km_keys := [''1'']\<rparr>) =
     (\<lparr>Type = EventNop, Count = 0\<rparr>, (default_km ModeNormal)\<lparr>km_keys := [''1'', ''2'']\<rparr>) \<and>
   Press ''j'' ((default_km ModeNormal)\<lparr>km_keys := [''1'', ''2'']\<rparr>) =
     (\<lparr>Type = EventCursorDown, Count = 12\<rparr>, default_km ModeNormal) \<and>
   Press ''0'' (default_km ModeNormal) = (\<lparr>Type = EventCursorHead, Count = 0\<rparr>, default_km ModeNormal)"
proof -
  have p: "ParseInt (numStr_loop 0 win) = (if spec_digit_run win = [] then 0
      else min (int (decimal (concat (spec_digit_run win)))) (2 ^ 63 - 1))"
  proof (cases "spec_digit_run win = []")
    case True
    then show ?thesis by (simp add: numStr_loop_0 ParseInt_Nil)
  next
    case False
    then obtain k ks where r: "spec_digit_run win = k # ks" by (cases "spec_digit_run win") auto
    have tok: "\<forall>k\<in>set (spec_digit_run win). digit_token k"
      by (simp add: spec_digit_run_tokens)
    then have "digit_token k" by (simp add: r)
    then have ne: "concat (spec_digit_run win) \<noteq> []"
      by (auto simp add: r digit_token_def)
    have "\<forall>c\<in>set (concat (spec_digit_run win)). isDigit c"
    proof
      fix c assume "c \<in> set (concat (spec_digit_run win))"
      then obtain k' where k': "k' \<in> set (spec_digit_run win)" "c \<in> set k'" by auto
      then have "digit_token k'" using tok by blast
      then obtain c' where "k' = [c']" "isDigit c'"
        by (cases k') (auto simp: digit_token_def)
      with k' show "isDigit c" by simp
    qed
    then have "list_all isDigit (concat (spec_digit_run win))"
      by (simp add: list_all_iff)
    from ParseInt_digits [OF ne this] False show ?thesis
      by (simp add: numStr_loop_0)
  qed
  have z: "numStr_loop 0 (''0'' # win) = []" by simp
  show ?thesis
  proof (intro conjI)
    show "numStr_loop 0 win = concat (spec_digit_run win)" by (rule numStr_loop_0)
    show "length (numStr_loop 0 win) = length (spec_digit_run win)" by (rule length_numStr)
    show "numStr_loop 0 (''0'' # win) = []" by (rule z)
    show "ParseInt (numStr_loop 0 win) = (if spec_digit_run win = [] then 0
      else min (int (decimal (concat (spec_digit_run win)))) (2 ^ 63 - 1))" by (rule p)
  qed (simp_all only: default_km_normal press_1 press_1_2 press_1_2_j press_0)
qed

text \<open>The theorem at the window "1", "0", "j": the run is "10".\<close>

theorem count_parsing_witness:
  "numStr_loop 0 [''1'', ''0'', ''j''] = ''10'' \<and> ParseInt (numStr_loop 0 [''1'', ''0'', ''j'']) = 10"
  using count_parsing [of "[''1'', ''0'', ''j'']"]
  by (simp add: spec_digit_run_def digit_token_def isDigit_def decimal_def digit_val_def)

lemma spec_trials_set:
  "t \<in> set (spec_trials km 0 n) \<Longrightarrow> fst t < n \<and> snd t \<in> set (km_keyEvents km)"
  by (auto simp: spec_trials_def)

lemma Press_cases:
  "snd (Press k km) = km\<lparr>km_keys := []\<rparr> \<or>
   (Press k km = (\<lparr>Type = EventNop, Count = 0\<rparr>, km\<lparr>km_keys := km_keys km @ [k]\<rparr>) \<and>
    (\<exists>i<length (km_keys km @ [k]). \<exists>ke\<in>set (km_keyEvents km).
       strict_prefix (spec_remainder (km_count km) (drop i (km_keys km @ [k]))) (ke_keys ke)))"
proof (cases "find (\<lambda>t. spec_verdict km (km_keys km @ [k]) t \<noteq> NoMatch)
                (spec_trials km 0 (length (km_keys km @ [k])))")
  case None
  then show ?thesis
    by (simp add: Press_refines_spec press_spec_def)
next
  case (Some t)
  show ?thesis
  proof (cases "spec_verdict km (km_keys km @ [k]) t = Pending")
    case False
    with Some show ?thesis
      by (simp add: Press_refines_spec press_spec_def)
  next
    case True
    from Some have "t \<in> set (spec_trials km 0 (length (km_keys km @ [k])))"
      by (auto simp: find_Some_iff)
    then have t: "fst t < length (km_keys km @ [k])" "snd t \<in> set (km_keyEvents km)"
      using spec_trials_set by blast+
    from True have "strict_prefix (spec_remainder (km_count km) (drop (fst t) (km_keys km @ [k])))
        (ke_keys (snd t))"
      by (simp add: spec_verdict_def spec_compare_def split: if_splits)
    with t have "\<exists>i<length (km_keys km @ [k]). \<exists>ke\<in>set (km_keyEvents km).
       strict_prefix (spec_remainder (km_count km) (drop i (km_keys km @ [k]))) (ke_keys ke)"
      by blast
    moreover have "Press k km = (\<lparr>Type = EventNop, Count = 0\<rparr>, km\<lparr>km_keys := km_keys km @ [k]\<rparr>)"
      using Some True by (simp add: Press_refines_spec press_spec_def)
    ultimately show ?thesis by blast
  qed
qed

lemma longest_binding_ge: "ke \<in> set (km_keyEvents km) \<Longrightarrow> length (ke_keys ke) \<le> longest_binding km"
proof -
  have "x \<in> set xs \<Longrightarrow> x \<le> foldr max xs (0::nat)" for x xs
    by (induction xs) auto
  from this [of "length (ke_keys ke)" "map (\<lambda>ke. length (ke_keys ke)) (km_keyEvents km)"]
  show "ke \<in> set (km_keyEvents km) \<Longrightarrow> length (ke_keys ke) \<le> longest_binding km"
    by (simp add: longest_binding_def)
qed

lemma strict_prefix_length: "strict_prefix xs ys \<Longrightarrow> length xs < length ys"
  by (auto simp: strict_prefix_def prefix_def)

text \<open>
  C8, as stated, fails: after "1", "2", "3" in the default Normal mode the pending sequence
  holds three keys and is not cleared, and the longest binding has two keys.
\<close>

theorem pending_length_counterexample:
  "\<not> (length (km_keys (snd (Press ''3'' (snd (Press ''2'' (snd (Press ''1'' (default_km ModeNormal)))))))) \<le>
        longest_binding (default_km ModeNormal) \<or>
      km_keys (snd (Press ''3'' (snd (Press ''2'' (snd (Press ''1'' (default_km ModeNormal))))))) = [])"
  by (simp add: default_km_normal press_1 press_1_2 press_1_2_3 longest_normal)

text \<open>
  C8 (pending-sequence invariant, amended). After every \<open>Press\<close> the pending sequence is
  either cleared, or it is the old sequence with the new key appended and one of its
  suffix-windows, its count digits stripped when counting is enabled, is a strict prefix of
  a registered binding, hence strictly shorter than the longest registered binding. The
  sequence as a whole, skipped leading keys and count digits included, has no such bound.
\<close>

theorem pending_sequence_shape:
  "km_keys (snd (Press k km)) = [] \<or>
   (km_keys (snd (Press k km)) = km_keys km @ [k] \<and>
    (\<exists>i<length (km_keys km @ [k]). \<exists>ke\<in>set (km_keyEvents km).
       strict_prefix (spec_remainder (km_count km) (drop i (km_keys km @ [k]))) (ke_keys ke) \<and>
       length (spec_remainder (km_count km) (drop i (km_keys km @ [k]))) < longest_binding km))"
proof -
  from Press_cases [of k km] show ?thesis
  proof
    assume "snd (Press k km) = km\<lparr>km_keys := []\<rparr>"
    then show ?thesis by simp
  next
    assume a: "Press k km = (\<lparr>Type = EventNop, Count = 0\<rparr>, km\<lparr>km_keys := km_keys km @ [k]\<rparr>) \<and>
      (\<exists>i<length (km_keys km @ [k]). \<exists>ke\<in>set (km_keyEvents km).
         strict_prefix (spec_remainder (km_count km) (drop i (km_keys km @ [k]))) (ke_keys ke))"
    then obtain i ke where i: "i < length (km_keys km @ [k])" and ke: "ke \<in> set (km_keyEvents km)"
      and sp: "strict_prefix (spec_remainder (km_count km) (drop i (km_keys km @ [k]))) (ke_keys ke)"
      by blast
    from strict_prefix_length [OF sp] longest_binding_ge [OF ke]
    have "length (spec_remainder (km_count km) (drop i (km_keys km @ [k]))) < longest_binding km"
      by simp
    moreover have "km_keys (snd (Press k km)) = km_keys km @ [k]"
      using a by simp
    ultimately show ?thesis
      using i ke sp by blast
  qed
qed

text \<open>The theorem at "3" after the pending "1", "2" in Normal mode.\<close>

theorem pending_sequence_shape_witness:
  "km_keys (snd (Press ''3'' (normal_km\<lparr>km_keys := [''1'', ''2'']\<rparr>))) =
     km_keys (normal_km\<lparr>km_keys := [''1'', ''2'']\<rparr>) @ [''3''] \<and>
   (\<exists>i<length (km_keys (normal_km\<lparr>km_keys := [''1'', ''2'']\<rparr>) @ [''3'']).
      \<exists>ke\<in>set (km_keyEvents (normal_km\<lparr>km_keys := [''1'', ''2'']\<rparr>)).
       strict_prefix (spec_remainder (km_count (normal_km\<lparr>km_keys := [''1'', ''2'']\<rparr>))
          (drop i (km_keys (normal_km\<lparr>km_keys := [''1'', ''2'']\<rparr>) @ [''3''])))
         (ke_keys ke) \<and>
       length (spec_remainder (km_count (normal_km\<lparr>km_keys := [''1'', ''2'']\<rparr>))
          (drop i (km_keys (normal_km\<lparr>km_keys := [''1'', ''2'']\<rparr>) @ [''3''])))
         < longest_binding (normal_km\<lparr>km_keys := [''1'', ''2'']\<rparr>))"
proof -
  have "km_keys (snd (Press ''3'' (normal_km\<lparr>km_keys := [''1'', ''2'']\<rparr>))) \<noteq> []"
    by (simp add: press_1_2_3)
  with pending_sequence_shape [of "''3''" "normal_km\<lparr>km_keys := [''1'', ''2'']\<rparr>"]
  show ?thesis by blast
qed

lemma Press_short_bindings:
  assumes "\<not> km_count km" and "\<forall>ke\<in>set (km_keyEvents km). length (ke_keys ke) \<le> 1"
  shows "snd (Press k km) = km\<lparr>km_keys := []\<rparr>"
proof -
  from Press_cases [of k km] show ?thesis
  proof
    assume "Press k km = (\<lparr>Type = EventNop, Count = 0\<rparr>, km\<lparr>km_keys := km_keys km @ [k]\<rparr>) \<and>
      (\<exists>i<length (km_keys km @ [k]). \<exists>ke\<in>set (km_keyEvents km).
         strict_prefix (spec_remainder (km_count km) (drop i (km_keys km @ [k]))) (ke_keys ke))"
    then obtain i ke where i: "i < length (km_keys km @ [k])" and ke: "ke \<in> set (km_keyEvents km)"
      and sp: "strict_prefix (spec_remainder (km_count km) (drop i (km_keys km @ [k]))) (ke_keys ke)"
      by blast
    from i have "length (drop i (km_keys km @ [k])) \<ge> 1" by simp
    moreover from strict_prefix_length [OF sp] assms(1)
    have "length (drop i (km_keys km @ [k])) < length (ke_keys ke)"
      by (simp add: spec_remainder_def)
    moreover from assms(2) ke have "length (ke_keys ke) \<le> 1" by blast
    ultimately show ?thesis by linarith
  qed
qed

lemma Press_insert_km: "snd (Press k insert_km) = insert_km"
proof -
  have "snd (Press k insert_km) = insert_km\<lparr>km_keys := []\<rparr>"
    by (rule Press_short_bindings) (simp_all add: insert_km_def insert_registrations_def)
  then show ?thesis by (simp add: insert_km_def)
qed

lemma feed_shared:
  "h ! 1 = insert_km \<Longrightarrow> 1 < length h \<Longrightarrow>
   \<forall>mk\<in>set mks. fst mk = ModeInsert \<or> fst mk = ModeReplace \<Longrightarrow>
   feed (fst defaultKeyManagers) mks h = Some h"
proof (induction mks)
  case Nil
  show ?case by simp
next
  case (Cons mk mks)
  obtain m k where mk: "mk = (m, k)" by (cases mk)
  with Cons.prems have m: "m = ModeInsert \<or> m = ModeReplace" by simp
  have "press_at 1 k h = (fst (Press k insert_km), h)"
    using Cons.prems(1,2) Press_insert_km [of k]
    by (simp add: press_at_def case_prod_beta) (metis list_update_id)
  with m have "press_mode (fst defaultKeyManagers) m k h = Some (fst (Press k insert_km), h)"
    by (auto simp: press_mode_def default_refs)
  with Cons show ?case by (simp add: mk)
qed

text \<open>
  C9, as stated, fails: the entries of Insert and Replace are the same reference, and a
  binding registered through the entry of Insert changes what a key resolves to through
  the entry of Replace.
\<close>

theorem registry_sharing_counterexample:
  "fst defaultKeyManagers ModeInsert = fst defaultKeyManagers ModeReplace \<and>
   press_mode (fst defaultKeyManagers) ModeReplace ''q''
     (register_at (the (fst defaultKeyManagers ModeInsert)) EventQuit [''q''] (snd defaultKeyManagers)) \<noteq>
   press_mode (fst defaultKeyManagers) ModeReplace ''q'' (snd defaultKeyManagers)"
  by (simp add: default_refs default_heap press_mode_def press_at_def register_at_def Register_def
      insert_km_def insert_registrations_def Let_def Press_def Press_loop.simps cmp_def)

text \<open>
  C9 (per-mode resolvers, amended). The default map gives Normal and CommandLine a key
  manager of their own each, and Insert and Replace one key manager that they share.
  Keys fed through Insert and Replace, in any number and any interleaving, leave the whole
  store as \<open>defaultKeyManagers\<close> built it: the pending sequence of the shared key manager is
  empty again after every key, so neither mode changes what later keys resolve to in the
  other.
\<close>

theorem mode_resolvers:
  "fst defaultKeyManagers ModeNormal = Some 0 \<and>
   fst defaultKeyManagers ModeInsert = Some 1 \<and>
   fst defaultKeyManagers ModeReplace = Some 1 \<and>
   fst defaultKeyManagers ModeCmdline = Some 2 \<and>
   length (snd defaultKeyManagers) = 3 \<and>
   ((\<forall>mk\<in>set mks. fst mk = ModeInsert \<or> fst mk = ModeReplace) \<longrightarrow>
    feed (fst defaultKeyManagers) mks (snd defaultKeyManagers) = Some (snd defaultKeyManagers))"
proof -
  have "(\<forall>mk\<in>set mks. fst mk = ModeInsert \<or> fst mk = ModeReplace) \<longrightarrow>
    feed (fst defaultKeyManagers) mks (snd defaultKeyManagers) = Some (snd defaultKeyManagers)"
    using feed_shared [of "snd defaultKeyManagers" mks] by (simp add: default_heap)
  then show ?thesis
    by (simp add: default_refs default_heap)
qed

text \<open>The theorem at three keys fed through Insert, Replace and Insert.\<close>

theorem mode_resolvers_witness:
  "feed (fst defaultKeyManagers) [(ModeInsert, ''x''), (ModeReplace, ''escape''), (ModeInsert, ''1'')]
     (snd defaultKeyManagers) = Some (snd defaultKeyManagers)"
  using mode_resolvers [of "[(ModeInsert, ''x''), (ModeReplace, ''escape''), (ModeInsert, ''1'')]"]
  by simp

section \<open>Properties of the window\<close>

subsection \<open>int64 arithmetic without overflow\<close>

lemma in64I: "- (2 ^ 63) \<le> x \<Longrightarrow> x < 2 ^ 63 \<Longrightarrow> in64 x"
  by (simp add: in64_def)

lemma i64_id: "in64 x \<Longrightarrow> i64 x = x"
  by (simp add: i64_def in64_def)

lemma add64_id: "in64 (a + b) \<Longrightarrow> add64 a b = a + b"
  by (simp add: add64_def i64_id)

lemma sub64_id: "in64 (a - b) \<Longrightarrow> sub64 a b = a - b"
  by (simp add: sub64_def i64_id)

lemma mul64_id: "in64 (a * b) \<Longrightarrow> mul64 a b = a * b"
  by (simp add: mul64_def i64_id)

lemma tdiv_nonneg: "0 \<le> a \<Longrightarrow> 0 < b \<Longrightarrow> tdiv a b = a div b"
  by (simp add: tdiv_def sgn_if)

lemma div_bounds:
  fixes a W :: int
  assumes "0 \<le> a" "0 < W"
  shows "0 \<le> a div W" "a div W * W \<le> a" "a < a div W * W + W"
proof -
  show "0 \<le> a div W" using assms by (simp add: pos_imp_zdiv_nonneg_iff)
  have "a = a div W * W + a mod W" by simp
  moreover have "0 \<le> a mod W" "a mod W < W" using assms by simp_all
  ultimately show "a div W * W \<le> a" "a < a div W * W + W" by linarith+
qed

lemma div_le_self_int:
  fixes a W :: int
  assumes "0 \<le> a" "0 < W"
  shows "a div W \<le> a"
proof -
  from div_bounds [OF assms] have q: "0 \<le> a div W" "a div W * W \<le> a" by simp_all
  have "a div W * 1 \<le> a div W * W"
    using q(1) assms(2) by (intro mult_left_mono) simp_all
  with q show ?thesis by simp
qed

lemma div64_id: "0 \<le> a \<Longrightarrow> a < 2 ^ 63 \<Longrightarrow> 0 < b \<Longrightarrow> div64 a b = a div b"
proof -
  assume a: "0 \<le> a" "a < 2 ^ 63" "0 < b"
  from div_bounds(1) [OF a(1) a(3)] div_le_self_int [OF a(1) a(3)] a(2)
  have "in64 (a div b)" by (intro in64I) linarith+
  with a show ?thesis by (simp add: div64_def tdiv_nonneg i64_id)
qed

lemma mod64_id: "0 \<le> a \<Longrightarrow> 0 < b \<Longrightarrow> mod64 a b = a mod b"
  by (simp add: mod64_def tdiv_nonneg minus_mult_div_eq_mod)

lemma MaxInt64_max: "MaxInt64 a b = max a b"
  by (simp add: MaxInt64_def max_def)

lemma MinInt64_min: "MinInt64 a b = min a b"
  by (simp add: MinInt64_def min_def)

lemma mul_bounds:
  fixes m q W :: int
  assumes "0 \<le> m" "m \<le> q" "0 < W"
  shows "0 \<le> m * W" "m * W \<le> q * W"
  using assms by (simp_all add: mult_right_mono)

text \<open>Rows: multiples of the width below and above an address.\<close>

lemma multiple_le_row:
  fixes t c W :: int
  assumes "0 < W" "t mod W = 0" "t \<le> c"
  shows "t \<le> c div W * W"
proof -
  have "t div W \<le> c div W" using assms by (simp add: zdiv_mono1)
  then have "t div W * W \<le> c div W * W" using assms(1) by (simp add: mult_right_mono)
  moreover have "t div W * W = t" using assms(2) by (simp add: dvd_div_mult_self mod_eq_0_iff_dvd)
  ultimately show ?thesis by simp
qed

lemma row_start_le:
  fixes c W :: int
  assumes "0 < W"
  shows "c div W * W \<le> c" "c < c div W * W + W"
proof -
  have "c = c div W * W + c mod W" by simp
  moreover have "0 \<le> c mod W" "c mod W < W" using assms by simp_all
  ultimately show "c div W * W \<le> c" "c < c div W * W + W" by linarith+
qed

lemma multiple_gt_row:
  fixes t c W :: int
  assumes "0 < W" "t mod W = 0" "c < t"
  shows "c div W * W + W \<le> t"
proof -
  have t: "t div W * W = t" using assms(2) by (simp add: dvd_div_mult_self mod_eq_0_iff_dvd)
  have "c div W < t div W"
  proof (rule ccontr)
    assume "\<not> c div W < t div W"
    then have "t div W \<le> c div W" by simp
    then have "t div W * W \<le> c div W * W" using assms(1) by (simp add: mult_right_mono)
    with row_start_le(1) [OF assms(1), of c] t assms(3) show False by linarith
  qed
  then have "c div W + 1 \<le> t div W" by simp
  then have "(c div W + 1) * W \<le> t div W * W" using assms(1) by (intro mult_right_mono) simp_all
  then show ?thesis using t by (simp add: distrib_right)
qed

lemma div_add_multiple:
  fixes a k W :: int
  assumes "W \<noteq> 0"
  shows "(a + k * W) div W = a div W + k"
  using assms by simp

lemma ceiling_rows:
  fixes L W :: int
  assumes "0 < W"
  shows "\<lceil>real_of_int L / real_of_int W\<rceil> = (L + W - 1) div W"
proof -
  define q where "q = (L + W - 1) div W"
  have q: "q * W \<le> L + W - 1" "L + W - 1 < q * W + W"
    using row_start_le [OF assms, of "L + W - 1"] by (simp_all add: q_def)
  define r where "r = q * W - L"
  have r: "0 \<le> r" "r < W" unfolding r_def using q by linarith+
  have "- L = W * (- q) + r" by (simp add: r_def)
  from int_div_pos_eq [OF this r] have "- L div W = - q" .
  moreover have "\<lceil>real_of_int L / real_of_int W\<rceil> = - (- L div W)"
    by (rule ceiling_divide_eq_div)
  ultimately show ?thesis by (simp add: q_def)
qed

subsection \<open>The offset follows the cursor\<close>

lemma max_offset_int:
  "0 < width w \<Longrightarrow> max_offset w = max ((length_w w + width w - 1) div width w - height w) 0 * width w"
  by (simp add: max_offset_def ceiling_rows)

lemma ctx:
  assumes "invariants w" "no_overflow w"
  shows "0 < width w" "0 < height w" "0 \<le> offset w" "offset w mod width w = 0"
    "0 \<le> cursor w" "cursor w \<le> max (length_w w - 1) 0"
    "offset w \<le> cursor w" "cursor w < offset w + height w * width w"
    "0 \<le> length_w w" "length_w w + height w * width w + width w < 2 ^ 63"
    "width w \<le> height w * width w" "height w \<le> height w * width w"
  using assms by (simp_all add: invariants_def no_overflow_def)

lemma page_ge_width:
  fixes W H :: int
  shows "0 < W \<Longrightarrow> 0 < H \<Longrightarrow> W \<le> H * W"
  by simp

lemma last_address_code:
  "0 \<le> L \<Longrightarrow> L < 2 ^ 63 \<Longrightarrow> sub64 (max L 1) 1 = max (L - 1) 0"
  by (subst sub64_id) (auto simp: in64_def)

lemma window_end_code:
  assumes "in64 (H * W)" "in64 (off + H * W)"
  shows "add64 off (mul64 H W) = off + H * W"
  using assms by (simp add: mul64_id add64_id)

lemma snap_up_code:
  assumes "0 < W" "0 < H" "0 \<le> off" "off + H * W \<le> c'" "c' + W < 2 ^ 63"
  shows "mul64 (div64 (add64 (sub64 c' (mul64 H W)) W) W) W = (c' - H * W + W) div W * W"
proof -
  have hw: "W \<le> H * W" using assms(1,2) by simp
  have 1: "mul64 H W = H * W" using assms hw by (intro mul64_id in64I) linarith+
  have 2: "sub64 c' (H * W) = c' - H * W" using assms hw by (intro sub64_id in64I) linarith+
  have 3: "add64 (c' - H * W) W = c' - H * W + W" using assms hw by (intro add64_id in64I) linarith+
  have x: "0 \<le> c' - H * W + W" using assms by linarith
  have 4: "div64 (c' - H * W + W) W = (c' - H * W + W) div W"
    using assms hw x by (intro div64_id) linarith+
  from div_bounds [OF x assms(1)]
  have 5: "mul64 ((c' - H * W + W) div W) W = (c' - H * W + W) div W * W"
    using assms hw by (intro mul64_id in64I) linarith+
  show ?thesis by (simp only: 1 2 3 4 5)
qed

lemma snap_up_props:
  fixes W H off c' :: int
  assumes "0 < W" "0 < H" "0 \<le> off" "off + H * W \<le> c'"
  defines "o' \<equiv> (c' - H * W + W) div W * W"
  shows "o' \<le> c'" "c' < o' + H * W" "0 \<le> o'" "o' mod W = 0"
proof -
  have hw: "W \<le> H * W" using assms(1,2) by simp
  have x: "0 \<le> c' - H * W + W" using assms(1-4) by linarith
  have q: "0 \<le> (c' - H * W + W) div W" "o' \<le> c' - H * W + W" "c' - H * W + W < o' + W"
    unfolding o'_def by (rule div_bounds [OF x assms(1)])+
  show "o' \<le> c'" using q hw by linarith
  show "c' < o' + H * W" using q by linarith
  show "0 \<le> o'" unfolding o'_def using q(1) assms(1) by simp
  show "o' mod W = 0" by (simp add: o'_def)
qed

lemma rows_last:
  fixes L W :: int
  assumes "0 < W"
  shows "(L + W - 1) div W = (L - 1) div W + 1"
proof -
  have "(L + W - 1) div W = ((L - 1) + 1 * W) div W"
    by (rule arg_cong [where f = "\<lambda>x. x div W"]) simp
  also have "\<dots> = (L - 1) div W + 1" using assms by (intro div_add_multiple) simp
  finally show ?thesis .
qed

lemma snap_up_bound:
  fixes W H L c' :: int
  assumes "0 < W" "0 < H" "H * W \<le> c'" "c' \<le> max (L - 1) 0"
  shows "(c' - H * W + W) div W * W \<le> max ((L + W - 1) div W - H) 0 * W"
proof -
  have hw: "W \<le> H * W" using assms(1,2) by simp
  have c: "c' \<le> L - 1" using assms hw by linarith
  have "(c' - H * W + W) div W = (c' + (1 - H) * W) div W"
    by (rule arg_cong [where f = "\<lambda>x. x div W"]) (simp add: algebra_simps)
  also have "\<dots> = c' div W + (1 - H)" using assms(1) by (intro div_add_multiple) simp
  finally have e: "(c' - H * W + W) div W = c' div W + 1 - H" by linarith
  have "c' div W \<le> (L - 1) div W" using c assms(1) by (simp add: zdiv_mono1)
  then have "c' div W + 1 - H \<le> (L + W - 1) div W - H"
    using rows_last [OF assms(1), of L] by linarith
  then have "c' div W + 1 - H \<le> max ((L + W - 1) div W - H) 0" by linarith
  then show ?thesis unfolding e using assms(1) by (intro mult_right_mono) simp_all
qed

text \<open>The cursor moved forward to \<open>c'\<close> and the offset advanced when the cursor left the window.\<close>

lemma forward_post:
  assumes inv: "invariants w" and nov: "no_overflow w"
    and c': "cursor w \<le> c'" "c' \<le> max (length_w w - 1) 0"
  defines "o' \<equiv> (if offset w + height w * width w \<le> c'
                   then (c' - height w * width w + width w) div width w * width w else offset w)"
  shows "(if c' \<ge> add64 (offset w) (mul64 (height w) (width w))
          then Some (w\<lparr>cursor := c', offset := mul64 (div64 (add64 (sub64 c' (mul64 (height w) (width w))) (width w))
                                                    (width w)) (width w)\<rparr>)
          else Some (w\<lparr>cursor := c'\<rparr>)) = Some (w\<lparr>cursor := c', offset := o'\<rparr>)"
    and "o' \<le> c'" and "c' < o' + height w * width w" and "0 \<le> o'" and "o' mod width w = 0"
    and "offset w \<le> max_offset w \<Longrightarrow> o' \<le> max_offset w"
proof -
  note b = ctx [OF inv nov]
  have we: "add64 (offset w) (mul64 (height w) (width w)) = offset w + height w * width w"
    using b by (intro window_end_code in64I) linarith+
  show "(if c' \<ge> add64 (offset w) (mul64 (height w) (width w))
          then Some (w\<lparr>cursor := c', offset := mul64 (div64 (add64 (sub64 c' (mul64 (height w) (width w))) (width w))
                                                    (width w)) (width w)\<rparr>)
          else Some (w\<lparr>cursor := c'\<rparr>)) = Some (w\<lparr>cursor := c', offset := o'\<rparr>)"
  proof (cases "offset w + height w * width w \<le> c'")
    case True
    have "mul64 (div64 (add64 (sub64 c' (mul64 (height w) (width w))) (width w)) (width w)) (width w)
        = (c' - height w * width w + width w) div width w * width w"
      using b c' True by (intro snap_up_code [where off = "offset w"]) linarith+
    with True show ?thesis by (simp add: we o'_def)
  next
    case False
    then show ?thesis by (simp add: we o'_def)
  qed
  show "o' \<le> c'" "c' < o' + height w * width w" "0 \<le> o'" "o' mod width w = 0"
    unfolding o'_def
    using snap_up_props [OF b(1) b(2) b(3), of c'] b c'
    by (cases "offset w + height w * width w \<le> c'"; simp only: if_True if_False; linarith)+
  show "o' \<le> max_offset w" if "offset w \<le> max_offset w"
  proof (cases "offset w + height w * width w \<le> c'")
    case True
    then have "height w * width w \<le> c'" using b by linarith
    from snap_up_bound [OF b(1) b(2) this c'(2)] True show ?thesis
      by (simp add: o'_def max_offset_int [OF b(1)])
  next
    case False
    with that show ?thesis by (simp add: o'_def)
  qed
qed

subsection \<open>Cursor movement\<close>

lemma cursorDown_post:
  assumes inv: "invariants w" and nov: "no_overflow w" and n: "in64 n"
  obtains c' o' where "cursorDown n w = Some (w\<lparr>cursor := c', offset := o'\<rparr>)"
    and "o' \<le> c'" and "c' < o' + height w * width w" and "0 \<le> c'" and "c' \<le> max (length_w w - 1) 0"
    and "0 \<le> o'" and "o' mod width w = 0" and "offset w \<le> max_offset w \<Longrightarrow> o' \<le> max_offset w"
proof -
  note b = ctx [OF inv nov]
  let ?W = "width w" and ?c = "cursor w"
  define Lm where "Lm = max (length_w w - 1) 0"
  have Lm: "0 \<le> Lm" "cursor w \<le> Lm" "Lm \<le> length_w w" using b by (simp_all add: Lm_def)
  define qL qc where "qL = Lm div ?W" and "qc = ?c div ?W"
  have qL: "0 \<le> qL" "qL * ?W \<le> Lm" unfolding qL_def by (rule div_bounds [OF Lm(1) b(1)])+
  have qc: "0 \<le> qc" "qc * ?W \<le> ?c" unfolding qc_def by (rule div_bounds [OF b(5) b(1)])+
  have qcL: "qc \<le> qL" unfolding qc_def qL_def using Lm(2) b(1) by (rule zdiv_mono1)
  define d where "d = qL - qc"
  define m where "m = min (max n 1) d"
  have m: "0 \<le> m" "m \<le> d" using qcL by (simp_all add: m_def d_def)
  have dq: "d \<le> qL" using qc(1) by (simp add: d_def)
  have mW: "0 \<le> m * ?W" "m * ?W \<le> qL * ?W"
    using mul_bounds [OF m(1) _ b(1), of qL] m(2) dq by simp_all
  define delta where "delta = min (m * ?W) (Lm - ?c)"
  have delta: "0 \<le> delta" "delta \<le> Lm - ?c" using mW(1) Lm(2) by (simp_all add: delta_def)
  define c' where "c' = ?c + delta"
  have c': "cursor w \<le> c'" "c' \<le> max (length_w w - 1) 0"
    using delta by (simp_all add: c'_def Lm_def [symmetric])
  have e1: "add64 (cursor w)
             (MinInt64
               (mul64 (MinInt64 (MaxInt64 n 1)
                        (sub64 (div64 (sub64 (MaxInt64 (length_w w) 1) 1) (width w))
                               (div64 (cursor w) (width w))))
                      (width w))
               (sub64 (sub64 (MaxInt64 (length_w w) 1) 1) (cursor w))) = c'"
  proof -
    have 1: "sub64 (max (length_w w) 1) 1 = Lm"
      unfolding Lm_def using b by (intro last_address_code) linarith+
    have 2: "div64 Lm ?W = qL" unfolding qL_def using Lm b by (intro div64_id) linarith+
    have 3: "div64 ?c ?W = qc" unfolding qc_def using Lm b by (intro div64_id) linarith+
    have 4: "sub64 qL qc = d" unfolding d_def using qL qc qcL Lm b qL_def div_le_self_int [OF Lm(1) b(1)]
      by (intro sub64_id in64I) linarith+
    have 5: "mul64 m ?W = m * ?W" using mW qL Lm b by (intro mul64_id in64I) linarith+
    have 6: "sub64 Lm ?c = Lm - ?c" using Lm b by (intro sub64_id in64I) linarith+
    have 7: "add64 ?c delta = c'" unfolding c'_def using delta Lm b by (intro add64_id in64I) linarith+
    show ?thesis
      unfolding MaxInt64_max MinInt64_min
      by (simp only: 1 2 3 4 5 6 7 m_def [symmetric] delta_def [symmetric])
  qed
  define o' where "o' = (if offset w + height w * width w \<le> c'
                   then (c' - height w * width w + width w) div width w * width w else offset w)"
  note fp = forward_post [OF inv nov c', folded o'_def]
  have eq: "cursorDown n w = Some (w\<lparr>cursor := c', offset := o'\<rparr>)"
    unfolding fp(1) [symmetric] using b(1) by (simp add: cursorDown_def Let_def e1)
  have c0: "0 \<le> c'" using c'(1) b by linarith
  show ?thesis
    by (rule that [OF eq fp(2) fp(3) c0 c'(2) fp(4) fp(5) fp(6)])
qed

lemma cursorNext_post:
  assumes inv: "invariants w" and nov: "no_overflow w" and n: "in64 n"
  obtains c' o' where "cursorNext n w = Some (w\<lparr>cursor := c', offset := o'\<rparr>)"
    and "o' \<le> c'" and "c' < o' + height w * width w" and "0 \<le> c'" and "c' \<le> max (length_w w - 1) 0"
    and "0 \<le> o'" and "o' mod width w = 0" and "offset w \<le> max_offset w \<Longrightarrow> o' \<le> max_offset w"
proof -
  note b = ctx [OF inv nov]
  define Lm where "Lm = max (length_w w - 1) 0"
  have Lm: "0 \<le> Lm" "cursor w \<le> Lm" "Lm \<le> length_w w" using b by (simp_all add: Lm_def)
  define delta where "delta = min (max n 1) (Lm - cursor w)"
  have delta: "0 \<le> delta" "delta \<le> Lm - cursor w" using Lm(2) by (simp_all add: delta_def)
  define c' where "c' = cursor w + delta"
  have c': "cursor w \<le> c'" "c' \<le> max (length_w w - 1) 0"
    using delta by (simp_all add: c'_def Lm_def [symmetric])
  have e1: "add64 (cursor w)
             (MinInt64 (MaxInt64 n 1) (sub64 (sub64 (MaxInt64 (length_w w) 1) 1) (cursor w))) = c'"
  proof -
    have 1: "sub64 (max (length_w w) 1) 1 = Lm"
      unfolding Lm_def using b by (intro last_address_code) linarith+
    have 6: "sub64 Lm (cursor w) = Lm - cursor w" using Lm b by (intro sub64_id in64I) linarith+
    have 7: "add64 (cursor w) delta = c'" unfolding c'_def using delta Lm b
      by (intro add64_id in64I) linarith+
    show ?thesis
      unfolding MaxInt64_max MinInt64_min
      by (simp only: 1 6 7 delta_def [symmetric])
  qed
  define o' where "o' = (if offset w + height w * width w \<le> c'
                   then (c' - height w * width w + width w) div width w * width w else offset w)"
  note fp = forward_post [OF inv nov c', folded o'_def]
  have eq: "cursorNext n w = Some (w\<lparr>cursor := c', offset := o'\<rparr>)"
    unfolding fp(1) [symmetric] using b(1) by (simp add: cursorNext_def Let_def e1)
  have c0: "0 \<le> c'" using c'(1) b by linarith
  show ?thesis
    by (rule that [OF eq fp(2) fp(3) c0 c'(2) fp(4) fp(5) fp(6)])
qed

lemma cursorEnd_post:
  assumes inv: "invariants w" and nov: "no_overflow w" and n: "in64 n"
    and big: "length_w w + max n 1 * width w < 2 ^ 63"
  obtains c' o' where "cursorEnd n w = Some (w\<lparr>cursor := c', offset := o'\<rparr>)"
    and "o' \<le> c'" and "c' < o' + height w * width w" and "0 \<le> c'" and "c' \<le> max (length_w w - 1) 0"
    and "0 \<le> o'" and "o' mod width w = 0" and "offset w \<le> max_offset w \<Longrightarrow> o' \<le> max_offset w"
proof -
  note b = ctx [OF inv nov]
  let ?W = "width w" and ?c = "cursor w"
  define Lm where "Lm = max (length_w w - 1) 0"
  have Lm: "0 \<le> Lm" "cursor w \<le> Lm" "Lm \<le> length_w w" using b by (simp_all add: Lm_def)
  define qc where "qc = ?c div ?W"
  have qc: "0 \<le> qc" "qc * ?W \<le> ?c" "?c < qc * ?W + ?W"
    unfolding qc_def by (rule div_bounds [OF b(5) b(1)])+
  define k where "k = max n 1"
  have k: "1 \<le> k" by (simp add: k_def)
  have kW: "?W \<le> k * ?W" using k b(1) by simp
  define s where "s = qc + k"
  have sW: "s * ?W = qc * ?W + k * ?W" by (simp add: s_def distrib_right)
  have s0: "0 \<le> s" using qc(1) k by (simp add: s_def)
  have ss: "s \<le> s * ?W" using s0 b(1) by (simp add: mult_le_cancel_left1)
  have big': "length_w w + k * ?W < 2 ^ 63" using big by (simp add: k_def)
  define c' where "c' = min (s * ?W - 1) Lm"
  have c': "cursor w \<le> c'" "c' \<le> max (length_w w - 1) 0"
    unfolding c'_def Lm_def [symmetric] using sW qc kW Lm(2) by linarith+
  have e1: "MinInt64 (sub64 (mul64 (add64 (div64 (cursor w) (width w)) (MaxInt64 n 1)) (width w)) 1)
              (sub64 (MaxInt64 (length_w w) 1) 1) = c'"
  proof -
    have 1: "sub64 (max (length_w w) 1) 1 = Lm"
      unfolding Lm_def using b by (intro last_address_code) linarith+
    have 3: "div64 ?c ?W = qc" unfolding qc_def using Lm b by (intro div64_id) linarith+
    have 4: "add64 qc k = s" unfolding s_def using ss sW s0 qc Lm b big' k
      by (intro add64_id in64I) (unfold s_def [symmetric], linarith+)
    have 5: "mul64 s ?W = s * ?W" using ss sW s0 qc Lm b big' by (intro mul64_id in64I) linarith+
    have 6: "sub64 (s * ?W) 1 = s * ?W - 1" using ss sW s0 qc Lm b big' kW
      by (intro sub64_id in64I) linarith+
    show ?thesis
      unfolding MaxInt64_max MinInt64_min
      by (simp only: 1 3 4 5 6 k_def [symmetric] c'_def [symmetric])
  qed
  define o' where "o' = (if offset w + height w * width w \<le> c'
                   then (c' - height w * width w + width w) div width w * width w else offset w)"
  note fp = forward_post [OF inv nov c', folded o'_def]
  have eq: "cursorEnd n w = Some (w\<lparr>cursor := c', offset := o'\<rparr>)"
    unfolding fp(1) [symmetric] using b(1) by (simp add: cursorEnd_def Let_def e1)
  have c0: "0 \<le> c'" using c'(1) b by linarith
  show ?thesis
    by (rule that [OF eq fp(2) fp(3) c0 c'(2) fp(4) fp(5) fp(6)])
qed

text \<open>The cursor moved backward to \<open>c'\<close> and the offset snapped to its row when it left the window.\<close>

lemma backward_post:
  assumes inv: "invariants w" and nov: "no_overflow w"
    and c': "0 \<le> c'" "c' \<le> cursor w"
  defines "o' \<equiv> (if c' < offset w then c' div width w * width w else offset w)"
  shows "(if c' < offset w
          then Some (w\<lparr>cursor := c', offset := mul64 (div64 c' (width w)) (width w)\<rparr>)
          else Some (w\<lparr>cursor := c'\<rparr>)) = Some (w\<lparr>cursor := c', offset := o'\<rparr>)"
    and "o' \<le> c'" and "c' < o' + height w * width w" and "0 \<le> o'" and "o' mod width w = 0"
    and "o' \<le> offset w"
proof -
  note b = ctx [OF inv nov]
  have q: "0 \<le> c' div width w" "c' div width w * width w \<le> c'" "c' < c' div width w * width w + width w"
    by (rule div_bounds [OF c'(1) b(1)])+
  have q0: "0 \<le> c' div width w * width w" using q(1) b(1) by simp
  have e: "mul64 (div64 c' (width w)) (width w) = c' div width w * width w"
  proof -
    have "div64 c' (width w) = c' div width w" using c' b by (intro div64_id) linarith+
    moreover have "mul64 (c' div width w) (width w) = c' div width w * width w"
      using q q0 c' b by (intro mul64_id in64I) linarith+
    ultimately show ?thesis by simp
  qed
  show "(if c' < offset w
          then Some (w\<lparr>cursor := c', offset := mul64 (div64 c' (width w)) (width w)\<rparr>)
          else Some (w\<lparr>cursor := c'\<rparr>)) = Some (w\<lparr>cursor := c', offset := o'\<rparr>)"
    by (simp add: e o'_def)
  show "o' \<le> c'" "c' < o' + height w * width w" "0 \<le> o'" "o' \<le> offset w"
    unfolding o'_def using q q0 b c'
    by (cases "c' < offset w"; simp only: if_True if_False; linarith)+
  show "o' mod width w = 0" using b(4) by (simp add: o'_def)
qed

lemma cursorUp_post:
  assumes inv: "invariants w" and nov: "no_overflow w" and n: "in64 n"
  obtains c' o' where "cursorUp n w = Some (w\<lparr>cursor := c', offset := o'\<rparr>)"
    and "o' \<le> c'" and "c' < o' + height w * width w" and "0 \<le> c'" and "c' \<le> max (length_w w - 1) 0"
    and "0 \<le> o'" and "o' mod width w = 0" and "offset w \<le> max_offset w \<Longrightarrow> o' \<le> max_offset w"
proof -
  note b = ctx [OF inv nov]
  let ?W = "width w" and ?c = "cursor w"
  define q where "q = ?c div ?W"
  have q: "0 \<le> q" "q * ?W \<le> ?c" unfolding q_def by (rule div_bounds [OF b(5) b(1)])+
  define m where "m = min (max n 1) q"
  have m: "0 \<le> m" "m \<le> q" using q(1) by (simp_all add: m_def)
  have mW: "0 \<le> m * ?W" "m * ?W \<le> q * ?W" by (rule mul_bounds [OF m b(1)])+
  define c' where "c' = ?c - m * ?W"
  have c': "0 \<le> c'" "c' \<le> ?c" unfolding c'_def using mW q by linarith+
  have e1: "sub64 ?c (mul64 (MinInt64 (MaxInt64 n 1) (div64 ?c ?W)) ?W) = c'"
  proof -
    have 1: "div64 ?c ?W = q" unfolding q_def using b by (intro div64_id) linarith+
    have 2: "mul64 m ?W = m * ?W" using mW q b by (intro mul64_id in64I) linarith+
    have 3: "sub64 ?c (m * ?W) = c'" unfolding c'_def using c' b
      by (intro sub64_id in64I) (unfold c'_def [symmetric], linarith+)
    show ?thesis
      unfolding MaxInt64_max MinInt64_min by (simp only: 1 2 3 m_def [symmetric])
  qed
  define o' where "o' = (if c' < offset w then c' div width w * width w else offset w)"
  note bp = backward_post [OF inv nov c', folded o'_def]
  have eq: "cursorUp n w = Some (w\<lparr>cursor := c', offset := o'\<rparr>)"
    unfolding bp(1) [symmetric] using b(1) by (simp add: cursorUp_def Let_def e1)
  have cL: "c' \<le> max (length_w w - 1) 0" using c' b by linarith
  have p7: "o' \<le> max_offset w" if "offset w \<le> max_offset w" using that bp(6) by linarith
  show ?thesis
    by (rule that [OF eq bp(2) bp(3) c'(1) cL bp(4) bp(5) p7])
qed

lemma cursorPrev_post:
  assumes inv: "invariants w" and nov: "no_overflow w" and n: "in64 n"
  obtains c' o' where "cursorPrev n w = Some (w\<lparr>cursor := c', offset := o'\<rparr>)"
    and "o' \<le> c'" and "c' < o' + height w * width w" and "0 \<le> c'" and "c' \<le> max (length_w w - 1) 0"
    and "0 \<le> o'" and "o' mod width w = 0" and "offset w \<le> max_offset w \<Longrightarrow> o' \<le> max_offset w"
proof -
  note b = ctx [OF inv nov]
  let ?W = "width w" and ?c = "cursor w"
  define m where "m = min (max n 1) ?c"
  have m: "0 \<le> m" "m \<le> ?c" using b(5) by (simp_all add: m_def)
  define c' where "c' = ?c - m"
  have c': "0 \<le> c'" "c' \<le> ?c" unfolding c'_def using m by linarith+
  have e1: "sub64 ?c (MinInt64 (MaxInt64 n 1) ?c) = c'"
  proof -
    have 3: "sub64 ?c m = c'" unfolding c'_def using c' b
      by (intro sub64_id in64I) (unfold c'_def [symmetric], linarith+)
    show ?thesis
      unfolding MaxInt64_max MinInt64_min by (simp only: 3 m_def [symmetric])
  qed
  define o' where "o' = (if c' < offset w then c' div width w * width w else offset w)"
  note bp = backward_post [OF inv nov c', folded o'_def]
  have eq: "cursorPrev n w = Some (w\<lparr>cursor := c', offset := o'\<rparr>)"
    unfolding bp(1) [symmetric] using b(1) by (simp add: cursorPrev_def Let_def e1)
  have cL: "c' \<le> max (length_w w - 1) 0" using c' b by linarith
  have p7: "o' \<le> max_offset w" if "offset w \<le> max_offset w" using that bp(6) by linarith
  show ?thesis
    by (rule that [OF eq bp(2) bp(3) c'(1) cL bp(4) bp(5) p7])
qed

subsection \<open>Movement within the row\<close>

lemma same_offset: "w\<lparr>cursor := c'\<rparr> = w\<lparr>cursor := c', offset := offset w\<rparr>"
  by simp

lemma cursorLeft_post:
  assumes inv: "invariants w" and nov: "no_overflow w" and n: "in64 n"
  obtains c' o' where "cursorLeft n w = Some (w\<lparr>cursor := c', offset := o'\<rparr>)"
    and "o' \<le> c'" and "c' < o' + height w * width w" and "0 \<le> c'" and "c' \<le> max (length_w w - 1) 0"
    and "0 \<le> o'" and "o' mod width w = 0" and "offset w \<le> max_offset w \<Longrightarrow> o' \<le> max_offset w"
proof -
  note b = ctx [OF inv nov]
  let ?W = "width w" and ?c = "cursor w"
  define r where "r = ?c mod ?W"
  have r: "0 \<le> r" "r < ?W" "?c div ?W * ?W + r = ?c" using b(1) by (simp_all add: r_def)
  have row: "offset w \<le> ?c div ?W * ?W" by (rule multiple_le_row [OF b(1) b(4) b(7)])
  define m where "m = min (max n 1) r"
  have m: "0 \<le> m" "m \<le> r" using r(1) by (simp_all add: m_def)
  define c' where "c' = ?c - m"
  have c': "offset w \<le> c'" "c' \<le> ?c" unfolding c'_def using m r row by linarith+
  have e1: "sub64 ?c (MinInt64 (MaxInt64 n 1) (mod64 ?c ?W)) = c'"
  proof -
    have 1: "mod64 ?c ?W = r" unfolding r_def using b by (intro mod64_id) linarith+
    have 3: "sub64 ?c m = c'" unfolding c'_def using c' b
      by (intro sub64_id in64I) (unfold c'_def [symmetric], linarith+)
    show ?thesis
      unfolding MaxInt64_max MinInt64_min by (simp only: 1 3 m_def [symmetric])
  qed
  have eq: "cursorLeft n w = Some (w\<lparr>cursor := c', offset := offset w\<rparr>)"
    using b(1) by (simp add: cursorLeft_def e1)
  have p2: "c' < offset w + height w * width w" using c' b by linarith
  have p3: "0 \<le> c'" using c' b by linarith
  have p4: "c' \<le> max (length_w w - 1) 0" using c' b by linarith
  show ?thesis
    by (rule that [OF eq c'(1) p2 p3 p4 b(3) b(4)])
qed

lemma cursorRight_post:
  assumes inv: "invariants w" and nov: "no_overflow w" and n: "in64 n"
  obtains c' o' where "cursorRight n w = Some (w\<lparr>cursor := c', offset := o'\<rparr>)"
    and "o' \<le> c'" and "c' < o' + height w * width w" and "0 \<le> c'" and "c' \<le> max (length_w w - 1) 0"
    and "0 \<le> o'" and "o' mod width w = 0" and "offset w \<le> max_offset w \<Longrightarrow> o' \<le> max_offset w"
proof -
  note b = ctx [OF inv nov]
  let ?W = "width w" and ?c = "cursor w"
  define Lm where "Lm = max (length_w w - 1) 0"
  have Lm: "0 \<le> Lm" "cursor w \<le> Lm" "Lm \<le> length_w w" using b by (simp_all add: Lm_def)
  define r where "r = ?c mod ?W"
  have r: "0 \<le> r" "r < ?W" "?c div ?W * ?W + r = ?c" using b(1) by (simp_all add: r_def)
  have t: "(offset w + height w * ?W) mod ?W = 0" using b(4) by simp
  have row: "?c div ?W * ?W + ?W \<le> offset w + height w * ?W"
    by (rule multiple_gt_row [OF b(1) t b(8)])
  define a where "a = ?W - 1 - r"
  have a: "0 \<le> a" using r by (simp add: a_def)
  define m where "m = min (min (max n 1) a) (Lm - ?c)"
  have m: "0 \<le> m" "m \<le> a" "m \<le> Lm - ?c" using a Lm(2) by (simp_all add: m_def)
  define c' where "c' = ?c + m"
  have c': "?c \<le> c'" "c' \<le> Lm" "c' < offset w + height w * ?W"
    unfolding c'_def using m r row a_def by linarith+
  have e1: "add64 ?c (MinInt64 (MinInt64 (MaxInt64 n 1) (sub64 (sub64 ?W 1) (mod64 ?c ?W)))
                       (sub64 (sub64 (MaxInt64 (length_w w) 1) 1) ?c)) = c'"
  proof -
    have 1: "sub64 (max (length_w w) 1) 1 = Lm"
      unfolding Lm_def using b by (intro last_address_code) linarith+
    have 2: "mod64 ?c ?W = r" unfolding r_def using b by (intro mod64_id) linarith+
    have 3: "sub64 ?W 1 = ?W - 1" using b by (intro sub64_id in64I) linarith+
    have a': "a \<le> ?W - 1" using r by (simp add: a_def)
    have 4: "sub64 (?W - 1) r = a" unfolding a_def using a a' r b
      by (intro sub64_id in64I) (unfold a_def [symmetric], linarith+)
    have 5: "sub64 Lm ?c = Lm - ?c" using Lm b by (intro sub64_id in64I) linarith+
    have 6: "add64 ?c m = c'" unfolding c'_def using c' Lm b
      by (intro add64_id in64I) (unfold c'_def [symmetric], linarith+)
    show ?thesis
      unfolding MaxInt64_max MinInt64_min by (simp only: 1 2 3 4 5 6 m_def [symmetric])
  qed
  have eq: "cursorRight n w = Some (w\<lparr>cursor := c', offset := offset w\<rparr>)"
    using b(1) by (simp add: cursorRight_def e1)
  have p1: "offset w \<le> c'" using c' b by linarith
  have p3: "0 \<le> c'" using c' b by linarith
  have p4: "c' \<le> max (length_w w - 1) 0" using c' by (simp add: Lm_def)
  show ?thesis
    by (rule that [OF eq p1 c'(3) p3 p4 b(3) b(4)])
qed

lemma cursorHead_post:
  assumes inv: "invariants w" and nov: "no_overflow w"
  obtains c' o' where "cursorHead n w = Some (w\<lparr>cursor := c', offset := o'\<rparr>)"
    and "o' \<le> c'" and "c' < o' + height w * width w" and "0 \<le> c'" and "c' \<le> max (length_w w - 1) 0"
    and "0 \<le> o'" and "o' mod width w = 0" and "offset w \<le> max_offset w \<Longrightarrow> o' \<le> max_offset w"
proof -
  note b = ctx [OF inv nov]
  let ?W = "width w" and ?c = "cursor w"
  define r where "r = ?c mod ?W"
  have r: "0 \<le> r" "r < ?W" "?c div ?W * ?W + r = ?c" using b(1) by (simp_all add: r_def)
  have row: "offset w \<le> ?c div ?W * ?W" by (rule multiple_le_row [OF b(1) b(4) b(7)])
  define c' where "c' = ?c - r"
  have c': "offset w \<le> c'" "c' \<le> ?c" unfolding c'_def using r row by linarith+
  have e1: "sub64 ?c (mod64 ?c ?W) = c'"
  proof -
    have 1: "mod64 ?c ?W = r" unfolding r_def using b by (intro mod64_id) linarith+
    have 3: "sub64 ?c r = c'" unfolding c'_def using c' b
      by (intro sub64_id in64I) (unfold c'_def [symmetric], linarith+)
    show ?thesis by (simp only: 1 3)
  qed
  have eq: "cursorHead n w = Some (w\<lparr>cursor := c', offset := offset w\<rparr>)"
    using b(1) by (simp add: cursorHead_def e1)
  have p2: "c' < offset w + height w * width w" using c' b by linarith
  have p3: "0 \<le> c'" using c' b by linarith
  have p4: "c' \<le> max (length_w w - 1) 0" using c' b by linarith
  show ?thesis
    by (rule that [OF eq c'(1) p2 p3 p4 b(3) b(4)])
qed

subsection \<open>Scrolling\<close>

lemma multiple_eq:
  fixes t W :: int
  shows "t mod W = 0 \<Longrightarrow> t div W * W = t"
  by (simp add: dvd_div_mult_self mod_eq_0_iff_dvd)

lemma scrollUp_post:
  assumes inv: "invariants w" and nov: "no_overflow w" and n: "in64 n"
  obtains c' o' where "scrollUp n w = Some (w\<lparr>cursor := c', offset := o'\<rparr>)"
    and "o' \<le> c'" and "c' < o' + height w * width w" and "0 \<le> c'" and "c' \<le> max (length_w w - 1) 0"
    and "0 \<le> o'" and "o' mod width w = 0" and "offset w \<le> max_offset w \<Longrightarrow> o' \<le> max_offset w"
proof -
  note b = ctx [OF inv nov]
  let ?W = "width w" and ?c = "cursor w" and ?H = "height w"
  define k where "k = offset w div ?W"
  have k: "0 \<le> k" "k * ?W = offset w"
    unfolding k_def using div_bounds(1) [OF b(3) b(1)] multiple_eq [OF b(4)] by simp_all
  define m where "m = min (max n 1) k"
  have m: "0 \<le> m" "m \<le> k" using k(1) by (simp_all add: m_def)
  have mW: "0 \<le> m * ?W" "m * ?W \<le> k * ?W" by (rule mul_bounds [OF m b(1)])+
  define o' where "o' = offset w - m * ?W"
  have o': "0 \<le> o'" "o' \<le> offset w" unfolding o'_def using mW k by linarith+
  have "o' = (k - m) * ?W" unfolding o'_def using k(2) by (simp add: left_diff_distrib)
  then have omod: "o' mod ?W = 0" by simp
  have e1: "sub64 (offset w) (mul64 (MinInt64 (MaxInt64 n 1) (div64 (offset w) ?W)) ?W) = o'"
  proof -
    have 1: "div64 (offset w) ?W = k" unfolding k_def using b by (intro div64_id) linarith+
    have 2: "mul64 m ?W = m * ?W" using mW k b by (intro mul64_id in64I) linarith+
    have 3: "sub64 (offset w) (m * ?W) = o'" unfolding o'_def using o' b
      by (intro sub64_id in64I) (unfold o'_def [symmetric], linarith+)
    show ?thesis
      unfolding MaxInt64_max MinInt64_min by (simp only: 1 2 3 m_def [symmetric])
  qed
  have we: "add64 o' (mul64 ?H ?W) = o' + ?H * ?W"
    using b o' by (intro window_end_code in64I) linarith+
  have hw: "mul64 ?H ?W = ?H * ?W" using b by (intro mul64_id in64I) linarith+
  have p7: "o' \<le> max_offset w" if "offset w \<le> max_offset w" using that o' by linarith
  show ?thesis
  proof (cases "o' + ?H * ?W \<le> ?c")
    case False
    have eq: "scrollUp n w = Some (w\<lparr>cursor := ?c, offset := o'\<rparr>)"
      using b(1) False by (simp add: scrollUp_def Let_def e1 we)
    have p1: "o' \<le> ?c" using o' b by linarith
    have p2: "?c < o' + ?H * ?W" using False by linarith
    show ?thesis
      by (rule that [OF eq p1 p2 b(5) b(6) o'(1) omod p7])
  next
    case True
    define d where "d = ?c - o' - ?H * ?W"
    have d: "0 \<le> d" "d \<le> ?c" using True o' b by (simp_all add: d_def)
    define e where "e = d div ?W"
    have e: "0 \<le> e" "e * ?W \<le> d" "d < e * ?W + ?W"
      unfolding e_def by (rule div_bounds [OF d(1) b(1)])+
    have ed: "e \<le> d" unfolding e_def by (rule div_le_self_int [OF d(1) b(1)])
    have eW: "(e + 1) * ?W = e * ?W + ?W" by (simp add: distrib_right)
    define c' where "c' = ?c - (e + 1) * ?W"
    have dd: "d = ?c - o' - ?H * ?W" by (rule d_def)
    have eW0: "0 \<le> e * ?W" using e(1) b(1) by simp
    have c': "o' \<le> c'" "c' < o' + ?H * ?W" "c' \<le> ?c"
      unfolding c'_def using e eW eW0 dd b(11) b(1) by linarith+
    have e2: "sub64 ?c (mul64 (add64 (div64 (sub64 (sub64 ?c o') (mul64 ?H ?W)) ?W) 1) ?W) = c'"
    proof -
      have 1: "sub64 ?c o' = ?c - o'" using o' b by (intro sub64_id in64I) linarith+
      have 2: "sub64 (?c - o') (?H * ?W) = d" unfolding d_def using d dd b
        by (intro sub64_id in64I) (unfold d_def [symmetric], linarith+)
      have 3: "div64 d ?W = e" unfolding e_def using d b by (intro div64_id) linarith+
      have 4: "add64 e 1 = e + 1" using e ed d b by (intro add64_id in64I) linarith+
      have 5: "mul64 (e + 1) ?W = (e + 1) * ?W" using e eW eW0 d b by (intro mul64_id in64I) linarith+
      have 6: "sub64 ?c ((e + 1) * ?W) = c'" unfolding c'_def using c' o' b
        by (intro sub64_id in64I) (unfold c'_def [symmetric], linarith+)
      show ?thesis by (simp only: hw 1 2 3 4 5 6)
    qed
    have eq: "scrollUp n w = Some (w\<lparr>cursor := c', offset := o'\<rparr>)"
      using b(1) True by (simp add: scrollUp_def Let_def e1 we e2)
    have p3: "0 \<le> c'" using c' o' by linarith
    have p4: "c' \<le> max (length_w w - 1) 0" using c' b by linarith
    show ?thesis
      by (rule that [OF eq c'(1) c'(2) p3 p4 o'(1) omod p7])
  qed
qed

lemma scrollDown_post:
  assumes inv: "invariants w" and nov: "no_overflow w" and n: "in64 n"
  obtains c' o' where "scrollDown n w = Some (w\<lparr>cursor := c', offset := o'\<rparr>)"
    and "o' \<le> c'" and "c' < o' + height w * width w" and "0 \<le> c'" and "c' \<le> max (length_w w - 1) 0"
    and "height w \<le> (max (length_w w) 1 + width w - 1) div width w \<Longrightarrow> 0 \<le> o'"
    and "o' mod width w = 0" and "o' \<le> max_offset w"
proof -
  note b = ctx [OF inv nov]
  let ?W = "width w" and ?c = "cursor w" and ?H = "height w" and ?L = "length_w w"
  define Lm where "Lm = max (?L - 1) 0"
  have Lm: "0 \<le> Lm" "?c \<le> Lm" "Lm \<le> ?L" using b by (simp_all add: Lm_def)
  define x where "x = max ?L 1 + ?W - 1"
  have x: "0 \<le> x" "x = Lm + ?W" "?W \<le> x" using b by (simp_all add: x_def Lm_def)
  define R where "R = x div ?W"
  have R: "0 \<le> R" "R * ?W \<le> x" "x < R * ?W + ?W"
    unfolding R_def by (rule div_bounds [OF x(1) b(1)])+
  have Rx: "R \<le> x" unfolding R_def by (rule div_le_self_int [OF x(1) b(1)])
  define h where "h = R - ?H"
  have hW: "h * ?W = R * ?W - ?H * ?W" by (simp add: h_def left_diff_distrib)
  define k where "k = offset w div ?W"
  have k: "0 \<le> k" "k * ?W = offset w"
    unfolding k_def using div_bounds(1) [OF b(3) b(1)] multiple_eq [OF b(4)] by simp_all
  have kk: "k \<le> offset w" unfolding k_def by (rule div_le_self_int [OF b(3) b(1)])
  define t where "t = h - k"
  have tW: "t * ?W = h * ?W - offset w" using k(2) by (simp add: t_def left_diff_distrib)
  define m where "m = min (max n 1) t"
  have m_cases: "(1 \<le> t \<and> 1 \<le> m \<and> m \<le> t) \<or> (t < 1 \<and> m = t)" by (auto simp: m_def)
  have mW: "(1 \<le> t \<and> ?W \<le> m * ?W \<and> m * ?W \<le> t * ?W) \<or> (t < 1 \<and> m * ?W = t * ?W)"
  proof -
    from m_cases show ?thesis
    proof
      assume a: "1 \<le> t \<and> 1 \<le> m \<and> m \<le> t"
      then have "1 * ?W \<le> m * ?W" "m * ?W \<le> t * ?W"
        using b(1) by (simp_all only: mult_right_mono less_imp_le)
      with a show ?thesis by simp
    next
      assume "t < 1 \<and> m = t"
      then show ?thesis by simp
    qed
  qed
  define o' where "o' = offset w + m * ?W"
  have o'h: "o' \<le> h * ?W" unfolding o'_def using mW tW by linarith
  have o'lo: "- (?H * ?W) - ?L \<le> o'" "t < 1 \<Longrightarrow> o' = h * ?W" "1 \<le> t \<Longrightarrow> offset w + ?W \<le> o'"
    unfolding o'_def using mW tW hW R b Lm x by linarith+
  have oLm: "o' \<le> Lm" using o'h hW R x b(11) by linarith
  have "o' = (k + m) * ?W" unfolding o'_def using k(2) by (simp add: distrib_right)
  then have omod: "o' mod ?W = 0" by simp
  have e1: "add64 (offset w)
              (mul64 (MinInt64 (MaxInt64 n 1)
                        (sub64 (sub64 (div64 (sub64 (add64 (MaxInt64 ?L 1) ?W) 1) ?W) ?H)
                               (div64 (offset w) ?W)))
                     ?W) = o'"
  proof -
    have 1: "add64 (max ?L 1) ?W = max ?L 1 + ?W" using b by (intro add64_id in64I) linarith+
    have 2: "sub64 (max ?L 1 + ?W) 1 = x" unfolding x_def using b
      by (intro sub64_id in64I) linarith+
    have 3: "div64 x ?W = R" unfolding R_def using x Lm b by (intro div64_id) linarith+
    have HH: "?H \<le> ?H * ?W" using b(1,2) by simp
    have 4: "sub64 R ?H = h" unfolding h_def using R Rx x Lm b HH
      by (intro sub64_id in64I) linarith+
    have 5: "div64 (offset w) ?W = k" unfolding k_def using b Lm by (intro div64_id) linarith+
    have hh: "h = R - ?H" by (rule h_def)
    have 6: "sub64 h k = t" unfolding t_def using hh R Rx x Lm b k kk HH
      by (intro sub64_id in64I) linarith+
    have 7: "mul64 m ?W = m * ?W" using mW tW hW R x Lm b
      by (intro mul64_id in64I) linarith+
    have 8: "add64 (offset w) (m * ?W) = o'" unfolding o'_def using o'lo(1) oLm Lm b
      by (intro add64_id in64I) (unfold o'_def [symmetric], linarith+)
    show ?thesis
      unfolding MaxInt64_max MinInt64_min by (simp only: 1 2 3 4 5 6 7 8 m_def [symmetric])
  qed
  have p5: "0 \<le> o'" if "?H \<le> (max ?L 1 + ?W - 1) div ?W"
  proof -
    from that have "0 \<le> h" by (simp add: h_def R_def x_def)
    then have "0 \<le> h * ?W" using b(1) by simp
    then show ?thesis using o'lo(2,3) b by (cases "t < 1") simp_all
  qed
  have p7: "o' \<le> max_offset w"
  proof -
    have "h \<le> max ((?L + ?W - 1) div ?W - ?H) 0"
    proof (cases "1 \<le> ?L")
      case True
      then have "x = ?L + ?W - 1" by (simp add: x_def)
      then show ?thesis by (simp add: h_def R_def)
    next
      case False
      then have "x = 1 * ?W" using b by (simp add: x_def)
      then have "R = 1" using b(1) by (simp add: R_def)
      then show ?thesis using b(2) by (simp add: h_def)
    qed
    then have "h * ?W \<le> max ((?L + ?W - 1) div ?W - ?H) 0 * ?W"
      using b(1) by (intro mult_right_mono) simp_all
    with o'h show ?thesis by (simp add: max_offset_int [OF b(1)])
  qed
  show ?thesis
  proof (cases "?c < o'")
    case False
    have eq: "scrollDown n w = Some (w\<lparr>cursor := ?c, offset := o'\<rparr>)"
      using b(1) False by (simp add: scrollDown_def Let_def e1)
    have p1: "o' \<le> ?c" using False by linarith
    have p2: "?c < o' + ?H * ?W"
      using o'lo(2,3) hW R x Lm b by (cases "t < 1") linarith+
    show ?thesis
      by (rule that [OF eq p1 p2 b(5) b(6) p5 omod p7])
  next
    case True
    define y where "y = o' - ?c + ?W - 1"
    have y: "0 \<le> y" "y < 2 ^ 63" using True oLm Lm b by (simp_all add: y_def)
    define g where "g = y div ?W * ?W"
    have g: "g \<le> y" "y < g + ?W" "0 \<le> y div ?W"
      unfolding g_def using div_bounds [OF y(1) b(1)] by simp_all
    have yy: "y = o' - ?c + ?W - 1" by (rule y_def)
    define c' where "c' = ?c + min g (Lm - ?c)"
    have c': "o' \<le> c'" "c' < o' + ?W" "c' \<le> Lm" "?c \<le> c'"
      unfolding c'_def using g yy oLm Lm True by linarith+
    have e2: "add64 ?c (MinInt64 (mul64 (div64 (sub64 (add64 (sub64 o' ?c) ?W) 1) ?W) ?W)
                          (sub64 (sub64 (MaxInt64 ?L 1) 1) ?c)) = c'"
    proof -
      have 1: "sub64 o' ?c = o' - ?c" using True oLm Lm b by (intro sub64_id in64I) linarith+
      have 2: "add64 (o' - ?c) ?W = o' - ?c + ?W" using True oLm Lm b
        by (intro add64_id in64I) linarith+
      have 3: "sub64 (o' - ?c + ?W) 1 = y" unfolding y_def using True oLm Lm b
        by (intro sub64_id in64I) linarith+
      have 4: "div64 y ?W = y div ?W" using y b by (intro div64_id) linarith+
      have 5: "mul64 (y div ?W) ?W = g" unfolding g_def using g y b
        by (intro mul64_id in64I) (unfold g_def [symmetric], linarith+)
      have 6: "sub64 (max ?L 1) 1 = Lm"
        unfolding Lm_def using b by (intro last_address_code) linarith+
      have 7: "sub64 Lm ?c = Lm - ?c" using Lm b by (intro sub64_id in64I) linarith+
      have 8: "add64 ?c (min g (Lm - ?c)) = c'" unfolding c'_def using c' Lm b
        by (intro add64_id in64I) (unfold c'_def [symmetric], linarith+)
      show ?thesis
        unfolding MaxInt64_max MinInt64_min by (simp only: 1 2 3 4 5 6 7 8)
    qed
    have eq: "scrollDown n w = Some (w\<lparr>cursor := c', offset := o'\<rparr>)"
      using b(1) True by (simp add: scrollDown_def Let_def e1 e2)
    have p2: "c' < o' + ?H * ?W" using c' b by linarith
    have p3: "0 \<le> c'" using c' b by linarith
    have p4: "c' \<le> max (?L - 1) 0" using c' by (simp add: Lm_def)
    show ?thesis
      by (rule that [OF eq c'(1) p2 p3 p4 p5 omod p7])
  qed
qed

subsection \<open>Paging\<close>

text \<open>The offset of the last page and the start of the last row, as \<open>pageDown\<close>, \<open>pageDownHalf\<close>
  and \<open>pageEnd\<close> compute them.\<close>

lemma last_page:
  assumes W: "0 < width w" and H: "0 < height w" and nov: "no_overflow w"
  defines "Mo \<equiv> max (((length_w w + width w - 1) div width w - height w) * width w) 0"
    and "cend \<equiv> ((max (length_w w) 1 + width w - 1) div width w - 1) * width w"
  shows "MaxInt64 (mul64 (sub64 (div64 (sub64 (add64 (length_w w) (width w)) 1) (width w)) (height w)) (width w)) 0 = Mo"
    and "mul64 (sub64 (div64 (sub64 (add64 (MaxInt64 (length_w w) 1) (width w)) 1) (width w)) 1) (width w) = cend"
    and "0 \<le> Mo" and "Mo mod width w = 0" and "Mo = max_offset w"
    and "Mo \<le> cend" and "cend < Mo + height w * width w" and "0 \<le> cend" and "cend \<le> max (length_w w - 1) 0"
proof -
  let ?W = "width w" and ?H = "height w" and ?L = "length_w w"
  from nov have L: "0 \<le> ?L" "?L + ?H * ?W + ?W < 2 ^ 63" by (simp_all add: no_overflow_def)
  have HW: "?W \<le> ?H * ?W" "?H \<le> ?H * ?W" using W H by simp_all
  define x0 where "x0 = ?L + ?W - 1"
  have x0: "0 \<le> x0" using L W by (simp add: x0_def)
  define R0 where "R0 = x0 div ?W"
  have R0: "0 \<le> R0" "R0 * ?W \<le> x0" "x0 < R0 * ?W + ?W"
    unfolding R0_def by (rule div_bounds [OF x0 W])+
  have R0x: "R0 \<le> x0" unfolding R0_def by (rule div_le_self_int [OF x0 W])
  define x1 where "x1 = max ?L 1 + ?W - 1"
  have x1: "0 \<le> x1" "?W \<le> x1" "x1 = max (?L - 1) 0 + ?W" using L W by (simp_all add: x1_def)
  define R1 where "R1 = x1 div ?W"
  have R1: "0 \<le> R1" "R1 * ?W \<le> x1" "x1 < R1 * ?W + ?W"
    unfolding R1_def by (rule div_bounds [OF x1(1) W])+
  have R1x: "R1 \<le> x1" unfolding R1_def by (rule div_le_self_int [OF x1(1) W])
  have xx0: "x0 = ?L + ?W - 1" by (rule x0_def)
  have dW: "(R0 - ?H) * ?W = R0 * ?W - ?H * ?W" by (simp add: left_diff_distrib)
  have cW: "(R1 - 1) * ?W = R1 * ?W - ?W" by (simp add: left_diff_distrib)
  have rel: "R1 * ?W = R0 * ?W \<or> (R1 * ?W = ?W \<and> R0 * ?W = 0)"
  proof (cases "1 \<le> ?L")
    case True
    then have "x1 = x0" by (simp add: x1_def x0_def)
    then show ?thesis by (simp add: R1_def R0_def)
  next
    case False
    with L have l0: "?L = 0" by simp
    then have "x1 = 1 * ?W" by (simp add: x1_def)
    then have "R1 = 1" using W by (simp add: R1_def)
    moreover have "R0 = 0" using W l0 by (simp add: R0_def x0_def)
    ultimately show ?thesis by simp
  qed
  have Mo': "Mo = max ((R0 - ?H) * ?W) 0" by (simp add: Mo_def R0_def x0_def)
  have ce': "cend = (R1 - 1) * ?W" by (simp add: cend_def R1_def x1_def)
  show "MaxInt64 (mul64 (sub64 (div64 (sub64 (add64 ?L ?W) 1) ?W) ?H) ?W) 0 = Mo"
  proof -
    have 1: "add64 ?L ?W = ?L + ?W" using L W HW by (intro add64_id in64I) linarith+
    have 2: "sub64 (?L + ?W) 1 = x0" unfolding x0_def using L W HW by (intro sub64_id in64I) linarith+
    have 3: "div64 x0 ?W = R0" unfolding R0_def using x0 xx0 L W HW by (intro div64_id) linarith+
    have 4: "sub64 R0 ?H = R0 - ?H" using R0 R0x xx0 L W HW H by (intro sub64_id in64I) linarith+
    have 5: "mul64 (R0 - ?H) ?W = (R0 - ?H) * ?W" using dW R0 xx0 L W HW
      by (intro mul64_id in64I) linarith+
    show ?thesis unfolding MaxInt64_max by (simp only: 1 2 3 4 5 Mo')
  qed
  show "mul64 (sub64 (div64 (sub64 (add64 (MaxInt64 ?L 1) ?W) 1) ?W) 1) ?W = cend"
  proof -
    have 1: "add64 (max ?L 1) ?W = max ?L 1 + ?W" using L W HW by (intro add64_id in64I) linarith+
    have 2: "sub64 (max ?L 1 + ?W) 1 = x1" unfolding x1_def using L W HW
      by (intro sub64_id in64I) linarith+
    have 3: "div64 x1 ?W = R1" unfolding R1_def using x1 L W HW by (intro div64_id) linarith+
    have 4: "sub64 R1 1 = R1 - 1" using R1 R1x x1 L W HW by (intro sub64_id in64I) linarith+
    have 5: "mul64 (R1 - 1) ?W = (R1 - 1) * ?W" using cW R1 x1 L W HW
      by (intro mul64_id in64I) linarith+
    show ?thesis unfolding MaxInt64_max by (simp only: 1 2 3 4 5 ce')
  qed
  show "0 \<le> Mo" by (simp add: Mo_def)
  show "Mo mod ?W = 0" by (simp add: Mo_def max_def)
  show "Mo = max_offset w"
    unfolding Mo' max_offset_int [OF W] x0_def [symmetric] R0_def [symmetric]
    using W by (simp add: max_def mult_less_0_iff mult_le_0_iff not_le) 
  have "1 \<le> R1"
  proof -
    have "?W div ?W \<le> x1 div ?W" using x1(2) W by (rule zdiv_mono1)
    then show ?thesis using W by (simp add: R1_def)
  qed
  then have "1 * ?W \<le> R1 * ?W" using W by (intro mult_right_mono) simp_all
  then have R1W: "?W \<le> R1 * ?W" by simp
  note facts = dW cW R0 R1 R1W x1 xx0 HW W L(1)
  from rel show "Mo \<le> cend" unfolding Mo' ce'
    by (elim disjE conjE) (use facts in linarith)+
  from rel show "cend < Mo + ?H * ?W" unfolding Mo' ce'
    by (elim disjE conjE) (use facts in linarith)+
  show "0 \<le> cend" unfolding ce' using facts by linarith
  show "cend \<le> max (?L - 1) 0" unfolding ce' using facts by linarith
qed

lemma pageEnd_post:
  assumes inv: "invariants w" and nov: "no_overflow w"
  obtains c' o' where "pageEnd w = Some (w\<lparr>cursor := c', offset := o'\<rparr>)"
    and "o' \<le> c'" and "c' < o' + height w * width w" and "0 \<le> c'" and "c' \<le> max (length_w w - 1) 0"
    and "0 \<le> o'" and "o' mod width w = 0" and "offset w \<le> max_offset w \<Longrightarrow> o' \<le> max_offset w"
proof -
  note b = ctx [OF inv nov]
  note lp = last_page [OF b(1) b(2) nov]
  have eq: "pageEnd w = Some (w\<lparr>cursor := ((max (length_w w) 1 + width w - 1) div width w - 1) * width w,
      offset := max (((length_w w + width w - 1) div width w - height w) * width w) 0\<rparr>)"
    using b(1) by (simp add: pageEnd_def lp(1) lp(2))
  show ?thesis
    by (rule that [OF eq lp(6) lp(7) lp(8) lp(9) lp(3) lp(4)]) (simp add: lp(5))
qed

lemma pageTop_post:
  assumes inv: "invariants w" and nov: "no_overflow w"
  obtains c' o' where "pageTop w = Some (w\<lparr>cursor := c', offset := o'\<rparr>)"
    and "o' \<le> c'" and "c' < o' + height w * width w" and "0 \<le> c'" and "c' \<le> max (length_w w - 1) 0"
    and "0 \<le> o'" and "o' mod width w = 0" and "offset w \<le> max_offset w \<Longrightarrow> o' \<le> max_offset w"
proof -
  note b = ctx [OF inv nov]
  have eq: "pageTop w = Some (w\<lparr>cursor := 0, offset := 0\<rparr>)"
    by (simp add: pageTop_def)
  have p2: "(0::int) < 0 + height w * width w" using b by linarith
  have p7: "0 \<le> max_offset w" using b(1) by (simp add: max_offset_def)
  show ?thesis
    by (rule that [OF eq _ p2]) (simp_all add: p7)
qed

lemma page_up_by_post:
  assumes inv: "invariants w" and nov: "no_overflow w"
    and s: "0 \<le> s" "s \<le> height w * width w" "s mod width w = 0"
  obtains c' o' where "page_up_by s w = Some (w\<lparr>cursor := c', offset := o'\<rparr>)"
    and "o' \<le> c'" and "c' < o' + height w * width w" and "0 \<le> c'" and "c' \<le> max (length_w w - 1) 0"
    and "0 \<le> o'" and "o' mod width w = 0" and "offset w \<le> max_offset w \<Longrightarrow> o' \<le> max_offset w"
proof -
  note b = ctx [OF inv nov]
  let ?W = "width w" and ?c = "cursor w" and ?H = "height w"
  define o' where "o' = max (offset w - s) 0"
  have o': "0 \<le> o'" "o' \<le> offset w" using s(1) b(3) by (simp_all add: o'_def)
  have "(offset w - s) mod ?W = 0" using b(4) s(3) by (simp add: mod_diff_eq [symmetric])
  then have omod: "o' mod ?W = 0" by (simp add: o'_def max_def)
  have e1: "MaxInt64 (sub64 (offset w) s) 0 = o'"
  proof -
    have "sub64 (offset w) s = offset w - s" using s b by (intro sub64_id in64I) linarith+
    then show ?thesis by (simp add: MaxInt64_max o'_def)
  qed
  have we: "add64 o' (mul64 ?H ?W) = o' + ?H * ?W"
    using b o' by (intro window_end_code in64I) linarith+
  have p7: "o' \<le> max_offset w" if "offset w \<le> max_offset w" using that o' by linarith
  have pg: "0 < ?H * ?W" using b by linarith
  show ?thesis
  proof (cases "o' = 0")
    case True
    have eq: "page_up_by s w = Some (w\<lparr>cursor := 0, offset := o'\<rparr>)"
      using True by (simp add: page_up_by_def Let_def e1)
    have p2: "0 < o' + ?H * ?W" using True pg by simp
    show ?thesis
      by (rule that [OF eq _ p2 _ _ o'(1) omod p7]) (simp_all add: True)
  next
    case nz: False
    show ?thesis
    proof (cases "o' + ?H * ?W \<le> ?c")
      case True
      have hW: "(?H - 1) * ?W = ?H * ?W - ?W" by (simp add: left_diff_distrib)
      define c' where "c' = o' + (?H - 1) * ?W"
      have c': "o' \<le> c'" "c' < o' + ?H * ?W" "c' \<le> ?c" unfolding c'_def using hW b True by linarith+
      have e2: "add64 o' (mul64 (sub64 ?H 1) ?W) = c'"
      proof -
        have 1: "sub64 ?H 1 = ?H - 1" using b by (intro sub64_id in64I) linarith+
        have 2: "mul64 (?H - 1) ?W = (?H - 1) * ?W" using hW b by (intro mul64_id in64I) linarith+
        have 3: "add64 o' ((?H - 1) * ?W) = c'" unfolding c'_def using c' o' b
          by (intro add64_id in64I) (unfold c'_def [symmetric], linarith+)
        show ?thesis by (simp only: 1 2 3)
      qed
      have eq: "page_up_by s w = Some (w\<lparr>cursor := c', offset := o'\<rparr>)"
        using nz True by (simp add: page_up_by_def Let_def e1 we e2)
      have p3: "0 \<le> c'" using c' o' by linarith
      have p4: "c' \<le> max (length_w w - 1) 0" using c' b by linarith
      show ?thesis
        by (rule that [OF eq c'(1) c'(2) p3 p4 o'(1) omod p7])
    next
      case False
      have eq: "page_up_by s w = Some (w\<lparr>cursor := ?c, offset := o'\<rparr>)"
        using nz False by (simp add: page_up_by_def Let_def e1 we)
      have p1: "o' \<le> ?c" using o' b by linarith
      have p2: "?c < o' + ?H * ?W" using False by linarith
      show ?thesis
        by (rule that [OF eq p1 p2 b(5) b(6) o'(1) omod p7])
    qed
  qed
qed

lemma page_down_by_post:
  assumes inv: "invariants w" and nov: "no_overflow w"
    and s: "0 \<le> s" "s \<le> height w * width w" "s mod width w = 0"
  obtains c' o' where "page_down_by s w = Some (w\<lparr>cursor := c', offset := o'\<rparr>)"
    and "o' \<le> c'" and "c' < o' + height w * width w" and "0 \<le> c'" and "c' \<le> max (length_w w - 1) 0"
    and "0 \<le> o'" and "o' mod width w = 0" and "offset w \<le> max_offset w \<Longrightarrow> o' \<le> max_offset w"
proof -
  note b = ctx [OF inv nov]
  let ?W = "width w" and ?c = "cursor w" and ?H = "height w"
  define Mo where "Mo = max (((length_w w + width w - 1) div width w - height w) * width w) 0"
  define cend where "cend = ((max (length_w w) 1 + width w - 1) div width w - 1) * width w"
  note lp = last_page [OF b(1) b(2) nov, folded Mo_def cend_def]
  define o' where "o' = min (offset w + s) Mo"
  have o': "0 \<le> o'" "o' \<le> Mo" "o' \<le> offset w + s" using s(1) b(3) lp(3) by (simp_all add: o'_def)
  have "(offset w + s) mod ?W = 0" using b(4) s(3) by (simp add: mod_add_eq [symmetric])
  then have omod: "o' mod ?W = 0" using lp(4) by (simp add: o'_def min_def)
  have MoL: "Mo \<le> max (length_w w - 1) 0" using lp(6) lp(9) by linarith
  have e1: "MinInt64 (add64 (offset w) s) Mo = o'"
  proof -
    have "add64 (offset w) s = offset w + s" using s b by (intro add64_id in64I) linarith+
    then show ?thesis by (simp add: MinInt64_min o'_def)
  qed
  have p7: "o' \<le> max_offset w" using o'(2) lp(5) by simp
  have pg: "0 < ?H * ?W" using b by linarith
  show ?thesis
  proof (cases "?c < o'")
    case True
    have eq: "page_down_by s w = Some (w\<lparr>cursor := o', offset := o'\<rparr>)"
      using True by (simp add: page_down_by_def Let_def lp(1) e1)
    have p2: "o' < o' + ?H * ?W" using pg by simp
    have p4: "o' \<le> max (length_w w - 1) 0" using o' MoL by linarith
    show ?thesis
      by (rule that [OF eq _ p2 o'(1) p4 o'(1) omod p7]) simp
  next
    case nlt: False
    show ?thesis
    proof (cases "o' = Mo")
      case True
      have eq: "page_down_by s w = Some (w\<lparr>cursor := cend, offset := o'\<rparr>)"
        using nlt True by (simp add: page_down_by_def Let_def lp(1) lp(2) e1)
      have p1: "o' \<le> cend" using True lp(6) by simp
      have p2: "cend < o' + ?H * ?W" using True lp(7) by simp
      show ?thesis
        by (rule that [OF eq p1 p2 lp(8) lp(9) o'(1) omod p7])
    next
      case False
      have eq: "page_down_by s w = Some (w\<lparr>cursor := ?c, offset := o'\<rparr>)"
        using nlt False by (simp add: page_down_by_def Let_def lp(1) e1)
      have os: "o' = offset w + s" using False by (simp add: o'_def min_def split: if_splits)
      have p1: "o' \<le> ?c" using nlt by linarith
      have p2: "?c < o' + ?H * ?W" using os s(1) b by linarith
      show ?thesis
        by (rule that [OF eq p1 p2 b(5) b(6) o'(1) omod p7])
    qed
  qed
qed

subsection \<open>Every operation on cursor and offset lands in the window\<close>

lemma landsI:
  assumes "r = Some (w\<lparr>cursor := c', offset := o'\<rparr>)"
    and "o' \<le> c'" and "c' < o' + height w * width w" and "0 \<le> c'" and "c' \<le> max (length_w w - 1) 0"
    and "low \<Longrightarrow> 0 \<le> o'" and "o' mod width w = 0"
    and "offset w \<le> max_offset w \<Longrightarrow> o' \<le> max_offset w"
  shows "lands low w r"
  unfolding lands_def
proof (intro exI conjI impI)
  show "r = Some (w\<lparr>cursor := c', offset := o'\<rparr>)" by (rule assms(1))
  show "o' \<le> c'" by (rule assms(2))
  show "c' < o' + height w * width w" by (rule assms(3))
  show "0 \<le> c'" by (rule assms(4))
  show "c' \<le> max (length_w w - 1) 0" by (rule assms(5))
  show "0 \<le> o'" if low using that by (rule assms(6))
  show "o' mod width w = 0" by (rule assms(7))
  show "o' \<le> max_offset w" if "offset w \<le> max_offset w" using that by (rule assms(8))
qed

lemma pageUp_post:
  assumes inv: "invariants w" and nov: "no_overflow w" and h2: "2 \<le> height w"
  shows "lands True w (pageUp w)"
proof -
  note b = ctx [OF inv nov]
  let ?W = "width w" and ?H = "height w"
  define s where "s = (?H - 2) * ?W"
  have sW: "s = ?H * ?W - 2 * ?W" by (simp add: s_def left_diff_distrib)
  have s0: "0 \<le> s" unfolding s_def using h2 b(1) by simp
  have s1: "s \<le> ?H * ?W" using sW b(1) by linarith
  have s2: "s mod ?W = 0" by (simp add: s_def)
  have e: "mul64 (sub64 ?H 2) ?W = s"
  proof -
    have 1: "sub64 ?H 2 = ?H - 2" using b h2 by (intro sub64_id in64I) linarith+
    have 2: "mul64 (?H - 2) ?W = s" unfolding s_def using s0 s1 b
      by (intro mul64_id in64I) (unfold s_def [symmetric], linarith+)
    show ?thesis by (simp only: 1 2)
  qed
  have eq: "pageUp w = page_up_by s w" by (simp add: pageUp_def page_up_by_def e)
  show ?thesis
    unfolding eq by (rule page_up_by_post [OF inv nov s0 s1 s2]) (rule landsI; simp)
qed

lemma half_step:
  assumes inv: "invariants w" and nov: "no_overflow w"
  defines "s \<equiv> max (height w div 2) 1 * width w"
  shows "mul64 (MaxInt64 (div64 (height w) 2) 1) (width w) = s"
    and "0 \<le> s" and "s \<le> height w * width w" and "s mod width w = 0"
proof -
  note b = ctx [OF inv nov]
  let ?W = "width w" and ?H = "height w"
  define j where "j = max (?H div 2) 1"
  have j: "1 \<le> j" "j \<le> ?H" using b(2) by (simp_all add: j_def)
  have jW: "0 \<le> j * ?W" "j * ?W \<le> ?H * ?W"
    using mul_bounds [OF _ j(2) b(1)] j(1) by simp_all
  have s: "s = j * ?W" by (simp add: s_def j_def)
  show "mul64 (MaxInt64 (div64 ?H 2) 1) ?W = s"
  proof -
    have 1: "div64 ?H 2 = ?H div 2" using b by (intro div64_id) linarith+
    have 2: "mul64 j ?W = j * ?W" using jW b by (intro mul64_id in64I) linarith+
    show ?thesis unfolding MaxInt64_max by (simp only: 1 2 s j_def [symmetric])
  qed
  show "0 \<le> s" "s \<le> ?H * ?W" using jW by (simp_all add: s)
  show "s mod ?W = 0" by (simp add: s)
qed

lemma pageUpHalf_post:
  assumes inv: "invariants w" and nov: "no_overflow w"
  shows "lands True w (pageUpHalf w)"
proof -
  note hs = half_step [OF inv nov]
  have eq: "pageUpHalf w = page_up_by (max (height w div 2) 1 * width w) w"
    by (simp add: pageUpHalf_def page_up_by_def hs(1))
  show ?thesis
    unfolding eq by (rule page_up_by_post [OF inv nov hs(2) hs(3) hs(4)]) (rule landsI; simp)
qed

lemma pageDown_post:
  assumes inv: "invariants w" and nov: "no_overflow w" and h2: "2 \<le> height w"
  shows "lands True w (pageDown w)"
proof -
  note b = ctx [OF inv nov]
  let ?W = "width w" and ?H = "height w"
  define s where "s = (?H - 2) * ?W"
  have sW: "s = ?H * ?W - 2 * ?W" by (simp add: s_def left_diff_distrib)
  have s0: "0 \<le> s" unfolding s_def using h2 b(1) by simp
  have s1: "s \<le> ?H * ?W" using sW b(1) by linarith
  have s2: "s mod ?W = 0" by (simp add: s_def)
  have e: "mul64 (sub64 ?H 2) ?W = s"
  proof -
    have 1: "sub64 ?H 2 = ?H - 2" using b h2 by (intro sub64_id in64I) linarith+
    have 2: "mul64 (?H - 2) ?W = s" unfolding s_def using s0 s1 b
      by (intro mul64_id in64I) (unfold s_def [symmetric], linarith+)
    show ?thesis by (simp only: 1 2)
  qed
  have eq: "pageDown w = page_down_by s w"
    using b(1) by (simp add: pageDown_def page_down_by_def e)
  show ?thesis
    unfolding eq by (rule page_down_by_post [OF inv nov s0 s1 s2]) (rule landsI; simp)
qed

lemma pageDownHalf_post:
  assumes inv: "invariants w" and nov: "no_overflow w"
  shows "lands True w (pageDownHalf w)"
proof -
  note b = ctx [OF inv nov]
  note hs = half_step [OF inv nov]
  have eq: "pageDownHalf w = page_down_by (max (height w div 2) 1 * width w) w"
    using b(1) by (simp add: pageDownHalf_def page_down_by_def hs(1))
  show ?thesis
    unfolding eq by (rule page_down_by_post [OF inv nov hs(2) hs(3) hs(4)]) (rule landsI; simp)
qed

lemma cursor_lands:
  assumes inv: "invariants w" and nov: "no_overflow w" and n: "in64 n"
  shows "lands True w (cursorUp n w)" "lands True w (cursorDown n w)"
    "lands True w (cursorLeft n w)" "lands True w (cursorRight n w)"
    "lands True w (cursorPrev n w)" "lands True w (cursorNext n w)"
    "lands True w (cursorHead n w)" "lands True w (scrollUp n w)"
    "lands (fills_page w) w (scrollDown n w)"
proof -
  show "lands True w (cursorUp n w)"
    by (rule cursorUp_post [OF inv nov n]) (rule landsI; simp)
  show "lands True w (cursorDown n w)"
    by (rule cursorDown_post [OF inv nov n]) (rule landsI; simp)
  show "lands True w (cursorLeft n w)"
    by (rule cursorLeft_post [OF inv nov n]) (rule landsI; simp)
  show "lands True w (cursorRight n w)"
    by (rule cursorRight_post [OF inv nov n]) (rule landsI; simp)
  show "lands True w (cursorPrev n w)"
    by (rule cursorPrev_post [OF inv nov n]) (rule landsI; simp)
  show "lands True w (cursorNext n w)"
    by (rule cursorNext_post [OF inv nov n]) (rule landsI; simp)
  show "lands True w (cursorHead n w)"
    by (rule cursorHead_post [OF inv nov]) (rule landsI; simp)
  show "lands True w (scrollUp n w)"
    by (rule scrollUp_post [OF inv nov n]) (rule landsI; simp)
  show "lands (fills_page w) w (scrollDown n w)"
    by (rule scrollDown_post [OF inv nov n]) (rule landsI; simp add: fills_page_def)
qed

lemma cursorEnd_lands:
  assumes inv: "invariants w" and nov: "no_overflow w" and n: "in64 n"
    and big: "length_w w + max n 1 * width w < 2 ^ 63"
  shows "lands True w (cursorEnd n w)"
  by (rule cursorEnd_post [OF inv nov n big]) (rule landsI; simp)

lemma page_lands:
  assumes inv: "invariants w" and nov: "no_overflow w"
  shows "lands True w (pageTop w)" "lands True w (pageEnd w)"
proof -
  show "lands True w (pageTop w)"
    by (rule pageTop_post [OF inv nov]) (rule landsI; simp)
  show "lands True w (pageEnd w)"
    by (rule pageEnd_post [OF inv nov]) (rule landsI; simp)
qed

subsection \<open>Jumps\<close>

lemma jumpTo_located:
  "jumpTo w =
     (case located_run w of
        None \<Rightarrow> Some w
      | Some run \<Rightarrow>
          if ParseInt run \<le> 0 \<or> length_w w \<le> ParseInt run then Some w
          else if width w = 0 then None
          else Some (jumped (ParseInt run) w))"
  by (simp add: jumpTo_def located_run_def jumped_def Let_def split: option.splits prod.splits)

lemma jumpBack_jumped: "jumpBack (jumped v w) = Some w"
  by (simp add: jumpBack_def jumped_def)

lemma jumped_neq: "jumped v w \<noteq> w"
proof
  assume "jumped v w = w"
  then have "stack (jumped v w) = stack w" by simp
  then show False by (simp add: jumped_def)
qed

lemma jumpTo_moved:
  assumes "jumpTo w = Some w'" "w' \<noteq> w"
  obtains run where "located_run w = Some run" "0 < ParseInt run" "ParseInt run < length_w w"
    "w' = jumped (ParseInt run) w" "width w \<noteq> 0"
  using assms unfolding jumpTo_located
  by (auto split: option.splits if_splits)

lemma jumpBacks_Suc_end:
  "jumpBacks (Suc k) w = (case jumpBacks k w of None \<Rightarrow> None | Some w' \<Rightarrow> jumpBack w')"
proof (induction k arbitrary: w)
  case 0
  show ?case by (simp split: option.splits)
next
  case (Suc k)
  obtain w1 where w1: "jumpBack w = Some w1"
    by (cases "length (stack w) = 0") (simp_all add: jumpBack_def)
  have "jumpBacks (Suc (Suc k)) w = jumpBacks (Suc k) w1"
    by (simp add: w1)
  also have "\<dots> = (case jumpBacks k w1 of None \<Rightarrow> None | Some w' \<Rightarrow> jumpBack w')"
    by (rule Suc.IH)
  also have "jumpBacks k w1 = jumpBacks (Suc k) w"
    by (simp add: w1)
  finally show ?case .
qed

lemma jump_chain_back:
  "jump_chain w ws \<Longrightarrow> k \<le> length ws \<Longrightarrow>
   jumpBacks k (last (w # ws)) = Some ((w # ws) ! (length ws - k))"
proof (induction ws arbitrary: w k)
  case Nil
  then show ?case by simp
next
  case (Cons w' ws)
  from Cons.prems(1) have j: "jumpTo w = Some w'" "w' \<noteq> w" and ch: "jump_chain w' ws"
    by simp_all
  show ?case
  proof (cases "k \<le> length ws")
    case True
    from Cons.IH [OF ch True] True show ?thesis
      by (simp add: Suc_diff_le)
  next
    case False
    with Cons.prems(2) have k: "k = Suc (length ws)" by simp
    from Cons.IH [OF ch order_refl]
    have "jumpBacks (length ws) (last (w' # ws)) = Some w'" by simp
    moreover from j obtain run where "w' = jumped (ParseInt run) w"
      by (rule jumpTo_moved)
    ultimately show ?thesis
      unfolding k jumpBacks_Suc_end by (simp add: jumpBack_jumped)
  qed
qed

lemma jumpBack_empty: "stack w = [] \<Longrightarrow> jumpBack w = Some w"
  by (simp add: jumpBack_def)

subsection \<open>The scan of \<open>jumpTo\<close>\<close>

lemma skip_white_bounds: "i \<le> n \<Longrightarrow> i \<le> skip_white bs n i \<and> skip_white bs n i \<le> n"
proof (induction bs n i rule: skip_white.induct)
  case (1 bytes n i)
  show ?case
  proof (cases "i < n \<and> isWhite (bytes ! i)")
    case True
    with "1.IH" have "Suc i \<le> skip_white bytes n (Suc i) \<and> skip_white bytes n (Suc i) \<le> n" by simp
    with True show ?thesis by (subst (1 2) skip_white.simps) simp
  next
    case False
    with "1.prems" show ?thesis by (subst (1 2) skip_white.simps) auto
  qed
qed

lemma skip_white_stop:
  "skip_white bs n i < n \<Longrightarrow> \<not> isWhite (bs ! skip_white bs n i)"
proof (induction bs n i rule: skip_white.induct)
  case (1 bytes n i)
  show ?case
  proof (cases "i < n \<and> isWhite (bytes ! i)")
    case True
    then have e: "skip_white bytes n i = skip_white bytes n (Suc i)"
      by (subst skip_white.simps) simp
    with "1.IH" [OF True] "1.prems" show ?thesis by simp
  next
    case False
    then have e: "skip_white bytes n i = i" by (subst skip_white.simps) auto
    with False "1.prems" show ?thesis by simp
  qed
qed

lemma skip_white_all:
  "i \<le> m \<Longrightarrow> m \<le> n \<Longrightarrow> \<forall>k. i \<le> k \<and> k < m \<longrightarrow> isWhite (bs ! k) \<Longrightarrow>
   skip_white bs n i = skip_white bs n m"
proof (induction bs n i rule: skip_white.induct)
  case (1 bytes n i)
  show ?case
  proof (cases "i = m")
    case True
    then show ?thesis by simp
  next
    case False
    with "1.prems" have lt: "i < m" by simp
    with "1.prems" have c: "i < n \<and> isWhite (bytes ! i)" by auto
    then have "skip_white bytes n i = skip_white bytes n (Suc i)"
      by (subst skip_white.simps) simp
    also have "\<dots> = skip_white bytes n m"
      using "1.IH" [OF c] lt "1.prems" by auto
    finally show ?thesis .
  qed
qed

lemma skip_white_here: "\<not> (i < n \<and> isWhite (bs ! i)) \<Longrightarrow> skip_white bs n i = i"
  by (subst skip_white.simps) auto

lemma digits_end_bounds: "i \<le> n \<Longrightarrow> i \<le> digits_end bs n i \<and> digits_end bs n i \<le> n"
proof (induction bs n i rule: digits_end.induct)
  case (1 bytes n j)
  show ?case
  proof (cases "j < n \<and> isDigit (bytes ! j)")
    case True
    with "1.IH" have "Suc j \<le> digits_end bytes n (Suc j) \<and> digits_end bytes n (Suc j) \<le> n" by simp
    with True show ?thesis by (subst (1 2) digits_end.simps) simp
  next
    case False
    with "1.prems" show ?thesis by (subst (1 2) digits_end.simps) auto
  qed
qed

lemma digits_end_digits:
  "j \<le> k \<Longrightarrow> k < digits_end bs n j \<Longrightarrow> isDigit (bs ! k)"
proof (induction bs n j rule: digits_end.induct)
  case (1 bytes n j)
  show ?case
  proof (cases "j < n \<and> isDigit (bytes ! j)")
    case True
    then have e: "digits_end bytes n j = digits_end bytes n (Suc j)"
      by (subst digits_end.simps) simp
    show ?thesis
    proof (cases "k = j")
      case True
      with \<open>j < n \<and> isDigit (bytes ! j)\<close> show ?thesis by simp
    next
      case False
      with "1.prems" e "1.IH" [OF True] show ?thesis by simp
    qed
  next
    case False
    then have "digits_end bytes n j = j" by (subst digits_end.simps) auto
    with "1.prems" show ?thesis by simp
  qed
qed

lemma digits_end_all:
  "j \<le> m \<Longrightarrow> m \<le> n \<Longrightarrow> \<forall>k. j \<le> k \<and> k < m \<longrightarrow> isDigit (bs ! k) \<Longrightarrow>
   digits_end bs n j = digits_end bs n m"
proof (induction bs n j rule: digits_end.induct)
  case (1 bytes n j)
  show ?case
  proof (cases "j = m")
    case True
    then show ?thesis by simp
  next
    case False
    with "1.prems" have lt: "j < m" by simp
    with "1.prems" have c: "j < n \<and> isDigit (bytes ! j)" by auto
    then have "digits_end bytes n j = digits_end bytes n (Suc j)"
      by (subst digits_end.simps) simp
    also have "\<dots> = digits_end bytes n m"
      using "1.IH" [OF c] lt "1.prems" by auto
    finally show ?thesis .
  qed
qed

lemma digits_end_here: "\<not> (j < n \<and> isDigit (bs ! j)) \<Longrightarrow> digits_end bs n j = j"
  by (subst digits_end.simps) auto

lemma digits_start_le: "digits_start bs i \<le> i"
  by (induction i) auto

lemma digits_start_digits: "digits_start bs i \<le> k \<Longrightarrow> k < i \<Longrightarrow> isDigit (bs ! k)"
proof (induction i)
  case 0
  then show ?case by simp
next
  case (Suc i)
  show ?case
  proof (cases "isDigit (bs ! i)")
    case True
    with Suc show ?thesis by (cases "k = i") auto
  next
    case False
    with Suc.prems show ?thesis by simp
  qed
qed

lemma digits_start_pos:
  "0 < i \<Longrightarrow> digits_start bs i = (if isDigit (bs ! (i - 1)) then digits_start bs (i - 1) else i)"
  by (cases i) simp_all

lemma digit_not_white: "isDigit c \<Longrightarrow> \<not> isWhite c"
  by (auto simp: isDigit_def isWhite_def)

subsection \<open>The located run and the jump\<close>

lemma length_scanned: "length (scanned w) = 100"
  by (simp add: scanned_def)

lemma scanned_nth:
  "k < 100 \<Longrightarrow>
   scanned w ! k = (if scan_start w + k < length (buf_data (buffer w))
                    then buf_data (buffer w) ! (scan_start w + k) else CHR 0x00)"
  by (auto simp: scanned_def nth_append)

lemma readBytes_scanned:
  assumes "0 \<le> cursor w" "cursor w < 2 ^ 63" "\<not> buf_fails (buffer w)"
  shows "readBytes w (MaxInt64 (sub64 (cursor w) (int 50)) 0) (2 * 50) =
           Some (length (take 100 (drop (scan_start w) (buf_data (buffer w)))), scanned w)"
proof -
  have "sub64 (cursor w) 50 = cursor w - 50"
    using assms by (intro sub64_id) (simp add: in64_def)
  then have "MaxInt64 (sub64 (cursor w) (int 50)) 0 = max (cursor w - 50) 0"
    by (simp add: MaxInt64_max)
  then show ?thesis
    using assms(3) by (simp add: readBytes_def scanned_def scan_start_def Let_def)
qed

lemma located_run_scanned:
  assumes "0 \<le> cursor w" "cursor w < 2 ^ 63" "\<not> buf_fails (buffer w)"
  shows "located_run w =
     (let i = skip_white (scanned w) 100 50 in
      if i = 100 \<or> \<not> isDigit (scanned w ! i) then None
      else (let i = digits_start (scanned w) i;
                j = digits_end (scanned w) 100 i in
            if j = 100 then None
            else Some (take (j - i) (drop i (scanned w)))))"
  unfolding located_run_def Let_def readBytes_scanned [OF assms] by simp

lemma located_run_fails: "buf_fails (buffer w) \<Longrightarrow> located_run w = None"
  by (simp add: located_run_def readBytes_def)

text \<open>A located run is a non-empty string of digits.\<close>

lemma run_digits:
  assumes i1: "i1 < n" "isDigit (bs ! i1)" and n: "n \<le> length bs"
  defines "i \<equiv> digits_start bs i1"
  defines "j \<equiv> digits_end bs n i"
  shows "i \<le> i1" "i1 < j" "j \<le> n" "\<forall>k. i \<le> k \<and> k < j \<longrightarrow> isDigit (bs ! k)"
    "take (j - i) (drop i bs) \<noteq> []" "list_all isDigit (take (j - i) (drop i bs))"
proof -
  show le: "i \<le> i1" unfolding i_def by (rule digits_start_le)
  have d: "\<forall>k. i \<le> k \<and> k < Suc i1 \<longrightarrow> isDigit (bs ! k)"
    using digits_start_digits [of bs i1] i1(2) by (auto simp: i_def less_Suc_eq)
  have "j = digits_end bs n (Suc i1)"
    unfolding j_def using le i1(1) d by (intro digits_end_all) auto
  with digits_end_bounds [of "Suc i1" n bs] i1(1) show lt: "i1 < j" and jn: "j \<le> n" by auto
  show all: "\<forall>k. i \<le> k \<and> k < j \<longrightarrow> isDigit (bs ! k)"
    unfolding j_def using digits_end_digits by blast
  show "take (j - i) (drop i bs) \<noteq> []" using le lt jn n by auto
  show "list_all isDigit (take (j - i) (drop i bs))"
    unfolding list_all_length
  proof (intro allI impI)
    fix k assume "k < length (take (j - i) (drop i bs))"
    then have k: "k < j - i" "i + k < length bs" by auto
    then have "take (j - i) (drop i bs) ! k = bs ! (i + k)" by simp
    with all k show "isDigit (take (j - i) (drop i bs) ! k)" by simp
  qed
qed

lemma readBytes_length: "readBytes w pos len = Some (n, bs) \<Longrightarrow> length bs = len"
  by (auto simp: readBytes_def Let_def split: if_splits)

lemma located_run_digits:
  assumes "located_run w = Some run"
  shows "run \<noteq> [] \<and> list_all isDigit run"
proof -
  from assms obtain n bs where rb: "readBytes w (MaxInt64 (sub64 (cursor w) (int 50)) 0) (2 * 50) = Some (n, bs)"
    by (auto simp: located_run_def Let_def split: option.splits)
  then have len: "length bs = 100" using readBytes_length by fastforce
  define i1 where "i1 = skip_white bs 100 50"
  from assms rb have i1: "i1 \<noteq> 100" "isDigit (bs ! i1)"
    and run: "run = take (digits_end bs 100 (digits_start bs i1) - digits_start bs i1)
                      (drop (digits_start bs i1) bs)"
    by (auto simp: located_run_def Let_def i1_def split: if_splits)
  have "i1 \<le> 100" unfolding i1_def using skip_white_bounds [of 50 100 bs] by simp
  with i1(1) have "i1 < 100" by simp
  from run_digits(5,6) [OF this i1(2)] len show ?thesis by (simp add: run)
qed

lemma scan_rejects_other:
  assumes "0 \<le> cursor w" "cursor w < 2 ^ 63" "\<not> buf_fails (buffer w)"
    and "\<not> isWhite (scanned w ! 50)" "\<not> isDigit (scanned w ! 50)"
  shows "located_run w = None"
proof -
  have "skip_white (scanned w) 100 50 = 50"
    using assms(4) by (intro skip_white_here) simp
  with assms(5) show ?thesis
    by (simp add: located_run_scanned [OF assms(1-3)] Let_def)
qed

lemma scan_rejects_white:
  assumes "0 \<le> cursor w" "cursor w < 2 ^ 63" "\<not> buf_fails (buffer w)"
    and "\<forall>k. 50 \<le> k \<and> k < 100 \<longrightarrow> isWhite (scanned w ! k)"
  shows "located_run w = None"
proof -
  have "skip_white (scanned w) 100 50 = skip_white (scanned w) 100 100"
    using assms(4) by (intro skip_white_all) simp_all
  also have "\<dots> = 100" by (intro skip_white_here) simp
  finally show ?thesis
    by (simp add: located_run_scanned [OF assms(1-3)] Let_def)
qed

lemma scan_rejects_edge:
  assumes "0 \<le> cursor w" "cursor w < 2 ^ 63" "\<not> buf_fails (buffer w)"
    and i: "50 \<le> i" "i < 100"
    and white: "\<forall>k. 50 \<le> k \<and> k < i \<longrightarrow> isWhite (scanned w ! k)"
    and digits: "\<forall>k. i \<le> k \<and> k < 100 \<longrightarrow> isDigit (scanned w ! k)"
  shows "located_run w = None"
proof -
  let ?bs = "scanned w"
  have di: "isDigit (?bs ! i)" using digits i by simp
  have "skip_white ?bs 100 50 = skip_white ?bs 100 i"
    using white i by (intro skip_white_all) simp_all
  also have "\<dots> = i" using di by (intro skip_white_here) (simp add: digit_not_white)
  finally have sw: "skip_white ?bs 100 50 = i" .
  define i0 where "i0 = digits_start ?bs i"
  have le: "i0 \<le> i" unfolding i0_def by (rule digits_start_le)
  have "\<forall>k. i0 \<le> k \<and> k < 100 \<longrightarrow> isDigit (?bs ! k)"
  proof (intro allI impI)
    fix k assume k: "i0 \<le> k \<and> k < 100"
    show "isDigit (?bs ! k)"
    proof (cases "k < i")
      case True
      with k show ?thesis unfolding i0_def using digits_start_digits by blast
    next
      case False
      with k digits show ?thesis by simp
    qed
  qed
  then have "digits_end ?bs 100 i0 = digits_end ?bs 100 100"
    using le i by (intro digits_end_all) simp_all
  also have "\<dots> = 100" by (intro digits_end_here) simp
  finally have "digits_end ?bs 100 i0 = 100" .
  then show ?thesis
    using sw di i by (simp add: located_run_scanned [OF assms(1-3)] Let_def i0_def)
qed

lemma jumped_post:
  assumes inv: "invariants w" and nov: "no_overflow w" and v: "0 < v" "v < length_w w"
  obtains o' where "jumped v w = w\<lparr>stack := stack w @ [(cursor w, offset w)], cursor := v, offset := o'\<rparr>"
    and "o' \<le> v" and "v < o' + height w * width w" and "0 \<le> o'" and "o' mod width w = 0"
proof -
  note b = ctx [OF inv nov]
  let ?W = "width w" and ?H = "height w"
  define r where "r = v mod ?W"
  have r: "0 \<le> r" "r < ?W" using b(1) by (simp_all add: r_def)
  define a where "a = v - r"
  have a: "a = v div ?W * ?W" by (simp add: a_def r_def minus_mod_eq_div_mult)
  have a0: "0 \<le> a" "a \<le> v" "v < a + ?W"
    using div_bounds [of v ?W] v(1) b(1) by (simp_all add: a)
  define g where "g = max (?H div 3) 0"
  have g: "0 \<le> g" "g \<le> ?H - 1" using b(2) by (simp_all add: g_def)
  have gW: "0 \<le> g * ?W" "g * ?W \<le> (?H - 1) * ?W" by (rule mul_bounds [OF g b(1)])+
  have hW: "(?H - 1) * ?W = ?H * ?W - ?W" by (simp add: left_diff_distrib)
  define y where "y = a - g * ?W"
  define o' where "o' = max y 0"
  have "y = (v div ?W - g) * ?W" by (simp add: y_def a left_diff_distrib)
  then have "y mod ?W = 0" by simp
  then have omod: "o' mod ?W = 0" by (simp add: o'_def max_def)
  have yy: "y = a - g * ?W" by (rule y_def)
  have p1: "o' \<le> v" unfolding o'_def using yy gW a0 v by linarith
  have p2: "v < o' + ?H * ?W" unfolding o'_def using yy gW hW a0 by linarith
  have p3: "0 \<le> o'" by (simp add: o'_def)
  have e: "MaxInt64 (sub64 (sub64 v (mod64 v ?W)) (mul64 (MaxInt64 (div64 ?H 3) 0) ?W)) 0 = o'"
  proof -
    have 1: "mod64 v ?W = r" unfolding r_def using v b by (intro mod64_id) linarith+
    have 2: "sub64 v r = a" unfolding a_def using a0 v b
      by (intro sub64_id in64I) (unfold a_def [symmetric], linarith+)
    have 3: "div64 ?H 3 = ?H div 3" using b by (intro div64_id) linarith+
    have 4: "mul64 g ?W = g * ?W" using gW hW b by (intro mul64_id in64I) linarith+
    have 5: "sub64 a (g * ?W) = y" unfolding y_def using gW hW a0 v b
      by (intro sub64_id in64I) linarith+
    show ?thesis unfolding MaxInt64_max by (simp only: 1 2 3 4 5 g_def [symmetric] o'_def)
  qed
  have eq: "jumped v w = w\<lparr>stack := stack w @ [(cursor w, offset w)], cursor := v, offset := o'\<rparr>"
    by (simp add: jumped_def e)
  show ?thesis by (rule that [OF eq p1 p2 p3 omod])
qed

subsection \<open>Example windows, evaluated\<close>

lemmas arith_eval =
  i64_def add64_def sub64_def mul64_def div64_def mod64_def tdiv_def MaxInt64_def MinInt64_def

lemma ex_pageUp:
  "pageUp (window_of 16 1 400 0 0 [] []) = Some (window_of 16 1 400 16 0 [] [])"
  by (simp add: pageUp_def window_of_def Let_def arith_eval)

lemma ex_cursorEnd:
  "cursorEnd (2 ^ 60) (window_of 16 10 400 0 0 [] []) = Some (window_of 16 10 400 0 (- 1) [] [])"
  by (simp add: cursorEnd_def window_of_def Let_def arith_eval)

lemma ex_jumpBack:
  "jumpBack (window_of 16 10 400 0 0 [(300, 0)] []) = Some (window_of 16 10 400 0 300 [] [])"
  by (simp add: jumpBack_def window_of_def)

lemma ex_scrollDown:
  "scrollDown 1 (window_of 16 10 20 0 0 [] []) = Some (window_of 16 10 20 (- 128) 0 [] [])"
  by (simp add: scrollDown_def window_of_def Let_def arith_eval)

lemma ex_cursorDown:
  "cursorDown 3 (window_of 8 10 100 0 0 [] []) = Some (window_of 8 10 100 0 24 [] [])"
  by (simp add: cursorDown_def window_of_def Let_def arith_eval)

lemma ex_pageEnd:
  "pageEnd (window_of 16 10 400 0 0 [] []) = Some (window_of 16 10 400 240 384 [] [])"
  by (simp add: pageEnd_def window_of_def Let_def arith_eval)

lemma ex_pageTop:
  "pageTop (window_of 16 10 400 240 384 [] []) = Some (window_of 16 10 400 0 0 [] [])"
  by (simp add: pageTop_def window_of_def)

lemma ex_invariants:
  "invariants (window_of 16 1 400 0 0 [] [])"
  "invariants (window_of 16 10 400 0 0 st data)"
  "invariants (window_of 16 10 20 0 0 [] [])"
  "invariants (window_of 8 10 100 0 0 [] [])"
  by (simp_all add: invariants_def window_of_def)

lemma ex_no_overflow:
  "no_overflow (window_of 16 10 400 off c st data)"
  "no_overflow (window_of 16 10 20 off c st data)"
  "no_overflow (window_of 8 10 100 off c st data)"
  by (simp_all add: no_overflow_def window_of_def)

lemma ex_max_offset:
  "max_offset (window_of 16 10 400 off c st data) = 240"
  "max_offset (window_of 16 10 20 off c st data) = 0"
  by (simp_all add: max_offset_def window_of_def)

lemma ex_scanned_399: "scanned (window_of 16 10 400 0 0 [] data_399) = take 100 data_399"
  by (simp add: scanned_def scan_start_def window_of_def data_399_def)

lemma ex_located_399: "located_run (window_of 16 10 400 0 0 [] data_399) = Some ''399''"
proof -
  let ?w = "window_of 16 10 400 0 0 [] data_399"
  let ?bs = "take 100 data_399"
  have c: "0 \<le> cursor ?w" "cursor ?w < 2 ^ 63" "\<not> buf_fails (buffer ?w)"
    by (simp_all add: window_of_def)
  have n: "?bs ! 49 = CHR 0x20" "?bs ! 50 = CHR ''3''" "?bs ! 51 = CHR ''9''" "?bs ! 52 = CHR ''9''"
    "?bs ! 53 = CHR 0x20"
    by (simp_all add: data_399_def nth_append)
  have 1: "skip_white ?bs 100 50 = 50"
    by (intro skip_white_here) (simp add: n isWhite_def)
  have 2: "digits_start ?bs 50 = 50"
    by (subst digits_start_pos) (simp_all add: n isDigit_def)
  have 3: "digits_end ?bs 100 50 = 53"
    by (simp add: digits_end.simps [of _ _ 50] digits_end.simps [of _ _ 51]
        digits_end.simps [of _ _ 52] digits_end.simps [of _ _ 53] n isDigit_def)
  have 4: "take 3 (drop 50 ?bs) = ''399''"
    by (simp add: data_399_def drop_take)
  show ?thesis
    unfolding located_run_scanned [OF c] ex_scanned_399 Let_def
    by (simp add: 1 2 3 4 n isDigit_def)
qed

lemma ex_ParseInt_399: "ParseInt ''399'' = 399"
  by (simp add: ParseInt_def isDigit_def decimal_def digit_val_def MaxInt64_const_def)

lemma ex_jumpTo:
  "jumpTo (window_of 16 10 400 0 0 [] data_399) = Some (window_of 16 10 400 336 399 [(0, 0)] data_399)"
  unfolding jumpTo_located ex_located_399
  by (simp add: ex_ParseInt_399 jumped_def window_of_def arith_eval)

lemma ex_overflow:
  "cursorDown 1 (window_of 4294967296 4294967296 400 0 0 [] []) =
     Some (window_of 4294967296 4294967296 400 4294967296 0 [] [])"
  by (simp add: cursorDown_def window_of_def Let_def arith_eval)

lemma ex_pageDown:
  "pageDown (window_of 16 1 400 0 0 [] []) = Some (window_of 16 1 400 (- 16) 0 [] [])"
  by (simp add: pageDown_def window_of_def Let_def arith_eval)

lemma ex_jumpBack_offset:
  "jumpBack (window_of 16 10 400 0 0 [(320, 320)] []) = Some (window_of 16 10 400 320 320 [] [])"
  by (simp add: jumpBack_def window_of_def)

lemma ex_invariants_more:
  "invariants (window_of 4294967296 4294967296 400 0 0 [] [])"
  by (simp add: invariants_def window_of_def)

lemma ex_max_offset_more:
  "max_offset (window_of 4294967296 4294967296 400 off c st data) = 0"
  "max_offset (window_of 16 1 400 off c st data) = 384"
  by (simp_all add: max_offset_def window_of_def)

subsection \<open>All navigation operations\<close>

lemma landsE:
  assumes "lands low w r"
  obtains c' o' where "r = Some (w\<lparr>cursor := c', offset := o'\<rparr>)"
    and "o' \<le> c'" and "c' < o' + height w * width w" and "0 \<le> c'" and "c' \<le> max (length_w w - 1) 0"
    and "low \<longrightarrow> 0 \<le> o'" and "o' mod width w = 0"
    and "offset w \<le> max_offset w \<longrightarrow> o' \<le> max_offset w"
  using assms unfolding lands_def by (elim exE conjE) (rule that)

lemma lands_contained:
  assumes "lands low w r"
  shows "\<exists>w'. r = Some w' \<and> contained w'"
proof -
  from assms obtain c' o' where r: "r = Some (w\<lparr>cursor := c', offset := o'\<rparr>)"
    and p: "o' \<le> c'" "c' < o' + height w * width w"
    by (rule landsE)
  have "contained (w\<lparr>cursor := c', offset := o'\<rparr>)" using p by (simp add: contained_def)
  with r show ?thesis by blast
qed

lemma max_offset_update [simp]:
  "max_offset (w\<lparr>cursor := c', offset := o'\<rparr>) = max_offset w"
  by (simp add: max_offset_def)

lemma lands_bounds:
  assumes "lands low w r" and low and "offset_bounds w"
  shows "\<exists>w'. r = Some w' \<and> offset_bounds w'"
proof -
  from assms(1) obtain c' o' where r: "r = Some (w\<lparr>cursor := c', offset := o'\<rparr>)"
    and p: "low \<longrightarrow> 0 \<le> o'" "o' mod width w = 0" "offset w \<le> max_offset w \<longrightarrow> o' \<le> max_offset w"
    by (rule landsE)
  have "offset_bounds (w\<lparr>cursor := c', offset := o'\<rparr>)"
    using p assms(2,3) by (simp add: offset_bounds_def)
  with r show ?thesis by blast
qed

lemma navigate_lands:
  assumes inv: "invariants w" and nov: "no_overflow w" and ok: "nav_ok op w"
    and op: "op \<noteq> JumpTo" "op \<noteq> JumpBack"
  shows "lands (\<forall>n. op = ScrollDown n \<longrightarrow> fills_page w) w (navigate op w)"
proof (cases op)
  case (ScrollDown n)
  with ok have "lands (fills_page w) w (scrollDown n w)"
    using cursor_lands(9) [OF inv nov] by simp
  with ScrollDown show ?thesis by simp
next
  case (CursorEnd n)
  with ok show ?thesis using cursorEnd_lands [OF inv nov] by simp
next
  case PageUp
  with ok show ?thesis using pageUp_post [OF inv nov] by simp
next
  case PageDown
  with ok show ?thesis using pageDown_post [OF inv nov] by simp
qed (use ok op cursor_lands [OF inv nov] page_lands [OF inv nov]
      pageUpHalf_post [OF inv nov] pageDownHalf_post [OF inv nov] in simp_all)

lemma jumpTo_result:
  assumes inv: "invariants w" and nov: "no_overflow w"
  obtains (same) "jumpTo w = Some w"
    | (moved) v o' where
        "jumpTo w = Some (w\<lparr>stack := stack w @ [(cursor w, offset w)], cursor := v, offset := o'\<rparr>)"
        "o' \<le> v" "v < o' + height w * width w" "0 \<le> o'" "o' mod width w = 0"
proof (cases "located_run w")
  case None
  then have "jumpTo w = Some w" by (simp add: jumpTo_located)
  then show ?thesis by (rule same)
next
  case (Some run)
  show ?thesis
  proof (cases "ParseInt run \<le> 0 \<or> length_w w \<le> ParseInt run")
    case True
    with Some have "jumpTo w = Some w" by (simp add: jumpTo_located)
    then show ?thesis by (rule same)
  next
    case False
    then have v: "0 < ParseInt run" "ParseInt run < length_w w" by simp_all
    from ctx(1) [OF inv nov] have W: "width w \<noteq> 0" by simp
    have j: "jumpTo w = Some (jumped (ParseInt run) w)"
      using Some False W by (simp add: jumpTo_located)
    show ?thesis
    proof (rule jumped_post [OF inv nov v])
      fix o'
      assume a: "jumped (ParseInt run) w =
          w\<lparr>stack := stack w @ [(cursor w, offset w)], cursor := ParseInt run, offset := o'\<rparr>"
        "o' \<le> ParseInt run" "ParseInt run < o' + height w * width w" "0 \<le> o'" "o' mod width w = 0"
      have e: "jumpTo w =
          Some (w\<lparr>stack := stack w @ [(cursor w, offset w)], cursor := ParseInt run, offset := o'\<rparr>)"
        using j a(1) by simp
      show ?thesis by (rule moved [OF e a(2) a(3) a(4) a(5)])
    qed
  qed
qed

lemma bounds_ok_nav_ok:
  "bounds_ok op w \<Longrightarrow> op \<noteq> JumpBack \<Longrightarrow> \<forall>n. op \<noteq> CursorEnd n \<Longrightarrow> nav_ok op w"
  by (cases op) simp_all

lemma bounds_ok_fills: "bounds_ok op w \<Longrightarrow> \<forall>n. op = ScrollDown n \<longrightarrow> fills_page w"
  by (cases op) (simp_all add: fills_page_def)

subsection \<open>The offset after \<open>cursorEnd\<close> with any count\<close>

lemma forward_offset:
  assumes inv: "invariants w" and nov: "no_overflow w"
    and c': "c' \<le> max (length_w w - 1) 0"
  defines "o' \<equiv> (if offset w + height w * width w \<le> c'
                   then (c' - height w * width w + width w) div width w * width w else offset w)"
  shows "(if c' \<ge> add64 (offset w) (mul64 (height w) (width w))
          then Some (w\<lparr>cursor := c', offset := mul64 (div64 (add64 (sub64 c' (mul64 (height w) (width w))) (width w))
                                                    (width w)) (width w)\<rparr>)
          else Some (w\<lparr>cursor := c'\<rparr>)) = Some (w\<lparr>cursor := c', offset := o'\<rparr>)"
    and "0 \<le> o'" and "o' mod width w = 0"
    and "offset w \<le> max_offset w \<Longrightarrow> o' \<le> max_offset w"
proof -
  note b = ctx [OF inv nov]
  have we: "add64 (offset w) (mul64 (height w) (width w)) = offset w + height w * width w"
    using b by (intro window_end_code in64I) linarith+
  show "(if c' \<ge> add64 (offset w) (mul64 (height w) (width w))
          then Some (w\<lparr>cursor := c', offset := mul64 (div64 (add64 (sub64 c' (mul64 (height w) (width w))) (width w))
                                                    (width w)) (width w)\<rparr>)
          else Some (w\<lparr>cursor := c'\<rparr>)) = Some (w\<lparr>cursor := c', offset := o'\<rparr>)"
  proof (cases "offset w + height w * width w \<le> c'")
    case True
    have "mul64 (div64 (add64 (sub64 c' (mul64 (height w) (width w))) (width w)) (width w)) (width w)
        = (c' - height w * width w + width w) div width w * width w"
      using b c' True by (intro snap_up_code [where off = "offset w"]) linarith+
    with True show ?thesis by (simp add: we o'_def)
  next
    case False
    then show ?thesis by (simp add: we o'_def)
  qed
  show "0 \<le> o'" "o' mod width w = 0"
    unfolding o'_def
    using snap_up_props [OF b(1) b(2) b(3), of c'] b
    by (cases "offset w + height w * width w \<le> c'"; simp only: if_True if_False; linarith)+
  show "o' \<le> max_offset w" if "offset w \<le> max_offset w"
  proof (cases "offset w + height w * width w \<le> c'")
    case True
    then have "height w * width w \<le> c'" using b by linarith
    from snap_up_bound [OF b(1) b(2) this c'] True show ?thesis
      by (simp add: o'_def max_offset_int [OF b(1)])
  next
    case False
    with that show ?thesis by (simp add: o'_def)
  qed
qed

lemma cursorEnd_offset:
  assumes inv: "invariants w" and nov: "no_overflow w" and ob: "offset_bounds w"
  shows "\<exists>w'. cursorEnd n w = Some w' \<and> offset_bounds w'"
proof -
  note b = ctx [OF inv nov]
  define c' where "c' = MinInt64
      (sub64 (mul64 (add64 (div64 (cursor w) (width w)) (MaxInt64 n 1)) (width w)) 1)
      (sub64 (MaxInt64 (length_w w) 1) 1)"
  have "sub64 (max (length_w w) 1) 1 = max (length_w w - 1) 0"
    using b by (intro last_address_code) linarith+
  then have c': "c' \<le> max (length_w w - 1) 0"
    by (simp add: c'_def MinInt64_min MaxInt64_max)
  define o' where "o' = (if offset w + height w * width w \<le> c'
                   then (c' - height w * width w + width w) div width w * width w else offset w)"
  note fo = forward_offset [OF inv nov c', folded o'_def]
  have eq: "cursorEnd n w = Some (w\<lparr>cursor := c', offset := o'\<rparr>)"
    unfolding fo(1) [symmetric] using b(1) by (simp add: cursorEnd_def Let_def c'_def)
  have "offset_bounds (w\<lparr>cursor := c', offset := o'\<rparr>)"
    using fo(2) fo(3) fo(4) ob by (simp add: offset_bounds_def)
  with eq show ?thesis by blast
qed

subsection \<open>The claims about the window\<close>

text \<open>
  C1 (displayed-window containment, amended). From a state that satisfies the data-model
  invariants and whose sizes leave the range of \<open>int64\<close> nowhere, every navigation operation
  returns, and returns a state with \<open>offset \<le> cursor < offset + height * width\<close>, provided
  that: the count is an \<open>int64\<close>, and for \<open>cursorEnd\<close> small enough that
  \<open>length + max(count, 1) * width < 2^63\<close>; for \<open>pageUp\<close> and \<open>pageDown\<close> the height is at
  least 2; for \<open>jumpBack\<close> the saved positions of the jump stack are themselves contained
  in a window of the present width and height.
\<close>

theorem navigation_contained:
  assumes inv: "invariants w" and nov: "no_overflow w" and ok: "nav_ok op w"
  shows "\<exists>w'. navigate op w = Some w' \<and> contained w'"
proof (cases "op = JumpTo \<or> op = JumpBack")
  case False
  then show ?thesis
    using lands_contained [OF navigate_lands [OF inv nov ok]] by simp
next
  case True
  have cw: "contained w" using inv by (simp add: invariants_def contained_def)
  from True show ?thesis
  proof
    assume op: "op = JumpTo"
    show ?thesis
    proof (rule jumpTo_result [OF inv nov])
      assume "jumpTo w = Some w"
      with cw op show ?thesis by simp
    next
      fix v o'
      assume j: "jumpTo w = Some (w\<lparr>stack := stack w @ [(cursor w, offset w)], cursor := v, offset := o'\<rparr>)"
        and p: "o' \<le> v" "v < o' + height w * width w"
      have "contained (w\<lparr>stack := stack w @ [(cursor w, offset w)], cursor := v, offset := o'\<rparr>)"
        using p by (simp add: contained_def)
      with j op show ?thesis by simp
    qed
  next
    assume op: "op = JumpBack"
    show ?thesis
    proof (cases "stack w = []")
      case True
      with cw op show ?thesis by (simp add: jumpBack_def)
    next
      case False
      then have "stack w ! (length (stack w) - 1) \<in> set (stack w)" by simp
      with ok op have "position_contained w (stack w ! (length (stack w) - 1))"
        by (simp add: list_all_iff)
      then show ?thesis
        using False op by (simp add: jumpBack_def contained_def position_contained_def)
    qed
  qed
qed

text \<open>The theorem at \<open>cursorDown(3)\<close> from cursor 0 with width 8 and length 100: the cursor
  moves to 24.\<close>

theorem navigation_contained_witness:
  "invariants (window_of 8 10 100 0 0 [] []) \<and> no_overflow (window_of 8 10 100 0 0 [] []) \<and>
   nav_ok (CursorDown 3) (window_of 8 10 100 0 0 [] []) \<and>
   navigate (CursorDown 3) (window_of 8 10 100 0 0 [] []) = Some (window_of 8 10 100 0 24 [] []) \<and>
   contained (window_of 8 10 100 0 24 [] [])"
proof -
  have 1: "invariants (window_of 8 10 100 0 0 [] [])" by (rule ex_invariants)
  have 2: "no_overflow (window_of 8 10 100 0 0 [] [])" by (rule ex_no_overflow)
  have 3: "nav_ok (CursorDown 3) (window_of 8 10 100 0 0 [] [])" by (simp add: in64_def)
  from navigation_contained [OF 1 2 3] 1 2 3 show ?thesis
    by (simp add: ex_cursorDown)
qed

text \<open>
  C1, as stated, fails at four states that satisfy the listed invariants: \<open>pageUp\<close> with a
  height of 1 moves the offset below the cursor's row; \<open>cursorEnd\<close> with the count \<open>2^60\<close> and
  width 16 wraps around to cursor \<open>-1\<close>; \<open>jumpBack\<close> restores a saved position that a window
  of 10 rows does not contain; with width and height \<open>2^32\<close> the page size wraps around to
  0 and \<open>cursorDown\<close> moves the offset to \<open>2^32\<close>, past the cursor.
\<close>

theorem containment_counterexample:
  "invariants (window_of 16 1 400 0 0 [] []) \<and>
   navigate PageUp (window_of 16 1 400 0 0 [] []) = Some (window_of 16 1 400 16 0 [] []) \<and>
   \<not> contained (window_of 16 1 400 16 0 [] []) \<and>
   invariants (window_of 16 10 400 0 0 [] []) \<and>
   navigate (CursorEnd (2 ^ 60)) (window_of 16 10 400 0 0 [] []) = Some (window_of 16 10 400 0 (- 1) [] []) \<and>
   \<not> contained (window_of 16 10 400 0 (- 1) [] []) \<and>
   invariants (window_of 16 10 400 0 0 [(300, 0)] []) \<and>
   navigate JumpBack (window_of 16 10 400 0 0 [(300, 0)] []) = Some (window_of 16 10 400 0 300 [] []) \<and>
   \<not> contained (window_of 16 10 400 0 300 [] []) \<and>
   invariants (window_of 4294967296 4294967296 400 0 0 [] []) \<and>
   navigate (CursorDown 1) (window_of 4294967296 4294967296 400 0 0 [] []) =
     Some (window_of 4294967296 4294967296 400 4294967296 0 [] []) \<and>
   \<not> contained (window_of 4294967296 4294967296 400 4294967296 0 [] [])"
  unfolding navigate.simps
  by (intro conjI ex_invariants ex_invariants_more ex_pageUp ex_cursorEnd ex_jumpBack ex_overflow)
     (simp_all add: contained_def window_of_def)

text \<open>
  C4 (offset bounds, amended). From a state that satisfies the data-model invariants and
  the offset bounds, with sizes that leave the range of \<open>int64\<close> nowhere, every navigation
  operation other than \<open>jumpTo\<close> returns a state with
  \<open>0 \<le> offset \<le> max(\<lceil>length/width\<rceil> - height, 0) * width\<close> and the offset a multiple of the
  width, provided that: the count is an \<open>int64\<close>; for \<open>pageUp\<close> and \<open>pageDown\<close> the height is
  at least 2; for \<open>scrollDown\<close> the data has at least as many rows as the window; for
  \<open>jumpBack\<close> the offsets saved on the jump stack are within the bounds. After \<open>jumpTo\<close> the
  offset is a non-negative multiple of the width that is not above the cursor; it may
  exceed the largest offset of the bounds.
\<close>

theorem offset_bounds_kept:
  assumes inv: "invariants w" and nov: "no_overflow w" and ob: "offset_bounds w"
    and ok: "bounds_ok op w"
  shows "\<exists>w'. navigate op w = Some w' \<and>
           (if op = JumpTo
            then 0 \<le> offset w' \<and> offset w' mod width w' = 0 \<and> offset w' \<le> cursor w'
            else offset_bounds w')"
proof (cases "op = JumpTo \<or> op = JumpBack")
  case False
  show ?thesis
  proof (cases "\<exists>n. op = CursorEnd n")
    case True
    then obtain n where "op = CursorEnd n" by blast
    with cursorEnd_offset [OF inv nov ob, of n] show ?thesis by simp
  next
    case no_end: False
    then have nok: "nav_ok op w" using ok False by (simp add: bounds_ok_nav_ok)
    from lands_bounds [OF navigate_lands [OF inv nov nok] bounds_ok_fills [OF ok] ob] False
    show ?thesis by simp
  qed
next
  case True
  then show ?thesis
  proof
    assume op: "op = JumpTo"
    show ?thesis
    proof (rule jumpTo_result [OF inv nov])
      assume "jumpTo w = Some w"
      with ob inv op show ?thesis by (simp add: offset_bounds_def invariants_def)
    next
      fix v o'
      assume j: "jumpTo w = Some (w\<lparr>stack := stack w @ [(cursor w, offset w)], cursor := v, offset := o'\<rparr>)"
        and p: "o' \<le> v" "0 \<le> o'" "o' mod width w = 0"
      with op show ?thesis by simp
    qed
  next
    assume op: "op = JumpBack"
    show ?thesis
    proof (cases "stack w = []")
      case True
      with ob op show ?thesis by (simp add: jumpBack_def)
    next
      case False
      then have "stack w ! (length (stack w) - 1) \<in> set (stack w)" by simp
      with ok op have "position_bounded w (stack w ! (length (stack w) - 1))"
        by (simp add: list_all_iff)
      then show ?thesis
        using False op by (simp add: jumpBack_def offset_bounds_def position_bounded_def max_offset_def)
    qed
  qed
qed

text \<open>The theorem at \<open>pageEnd\<close> with width 16, height 10 and length 400.\<close>

theorem offset_bounds_kept_witness:
  "invariants (window_of 16 10 400 0 0 [] []) \<and> no_overflow (window_of 16 10 400 0 0 [] []) \<and>
   offset_bounds (window_of 16 10 400 0 0 [] []) \<and> bounds_ok PageEnd (window_of 16 10 400 0 0 [] []) \<and>
   navigate PageEnd (window_of 16 10 400 0 0 [] []) = Some (window_of 16 10 400 240 384 [] []) \<and>
   offset_bounds (window_of 16 10 400 240 384 [] [])"
proof -
  have 1: "invariants (window_of 16 10 400 0 0 [] [])" by (rule ex_invariants)
  have 2: "no_overflow (window_of 16 10 400 0 0 [] [])" by (rule ex_no_overflow)
  have 3: "offset_bounds (window_of 16 10 400 0 0 [] [])"
    by (simp add: offset_bounds_def ex_max_offset) (simp add: window_of_def)
  have 4: "bounds_ok PageEnd (window_of 16 10 400 0 0 [] [])" by simp
  from offset_bounds_kept [OF 1 2 3 4] 1 2 3 4 show ?thesis
    by (simp add: ex_pageEnd)
qed

text \<open>
  C4, as stated, fails: with width 16, height 10 and length 400 a jump to address 399 sets
  the offset to 336, above the largest offset 240; \<open>scrollDown\<close> on 20 bytes of data, less
  than a page, sets the offset to \<open>-128\<close>; \<open>pageDown\<close> with a height of 1 sets it to \<open>-16\<close>;
  \<open>jumpBack\<close> restores a saved offset 320 above the largest offset 240; and with width and
  height \<open>2^32\<close> the page size wraps around and \<open>cursorDown\<close> sets the offset to \<open>2^32\<close>.
\<close>

theorem offset_bounds_counterexample:
  "invariants (window_of 16 10 400 0 0 [] data_399) \<and>
   offset_bounds (window_of 16 10 400 0 0 [] data_399) \<and>
   navigate JumpTo (window_of 16 10 400 0 0 [] data_399) =
     Some (window_of 16 10 400 336 399 [(0, 0)] data_399) \<and>
   \<not> offset_bounds (window_of 16 10 400 336 399 [(0, 0)] data_399) \<and>
   invariants (window_of 16 10 20 0 0 [] []) \<and>
   offset_bounds (window_of 16 10 20 0 0 [] []) \<and>
   navigate (ScrollDown 1) (window_of 16 10 20 0 0 [] []) = Some (window_of 16 10 20 (- 128) 0 [] []) \<and>
   \<not> offset_bounds (window_of 16 10 20 (- 128) 0 [] []) \<and>
   invariants (window_of 16 1 400 0 0 [] []) \<and>
   offset_bounds (window_of 16 1 400 0 0 [] []) \<and>
   navigate PageDown (window_of 16 1 400 0 0 [] []) = Some (window_of 16 1 400 (- 16) 0 [] []) \<and>
   \<not> offset_bounds (window_of 16 1 400 (- 16) 0 [] []) \<and>
   invariants (window_of 16 10 400 0 0 [(320, 320)] []) \<and>
   offset_bounds (window_of 16 10 400 0 0 [(320, 320)] []) \<and>
   navigate JumpBack (window_of 16 10 400 0 0 [(320, 320)] []) = Some (window_of 16 10 400 320 320 [] []) \<and>
   \<not> offset_bounds (window_of 16 10 400 320 320 [] []) \<and>
   invariants (window_of 4294967296 4294967296 400 0 0 [] []) \<and>
   offset_bounds (window_of 4294967296 4294967296 400 0 0 [] []) \<and>
   navigate (CursorDown 1) (window_of 4294967296 4294967296 400 0 0 [] []) =
     Some (window_of 4294967296 4294967296 400 4294967296 0 [] []) \<and>
   \<not> offset_bounds (window_of 4294967296 4294967296 400 4294967296 0 [] [])"
  unfolding navigate.simps
  by (intro conjI ex_invariants ex_invariants_more ex_jumpTo ex_scrollDown ex_pageDown
        ex_jumpBack_offset ex_overflow)
     (simp_all add: offset_bounds_def ex_max_offset ex_max_offset_more, simp_all add: window_of_def)

text \<open>
  C5 (jump-stack round trip). A \<open>jumpTo\<close> that changes the window pushes exactly the pair of
  cursor and offset it started from, and \<open>jumpBack\<close> right after it returns the window as it
  was before the jump, stack included. After any number of such jumps in a row, \<open>k\<close> jumps
  back return the window as it was \<open>k\<close> jumps earlier. \<open>jumpBack\<close> on an empty stack returns
  the window unchanged.
\<close>

theorem jump_round_trip:
  "(jumpTo w = Some w' \<and> w' \<noteq> w \<longrightarrow>
      stack w' = stack w @ [(cursor w, offset w)] \<and> jumpBack w' = Some w) \<and>
   (jump_chain w ws \<and> k \<le> length ws \<longrightarrow>
      jumpBacks k (last (w # ws)) = Some ((w # ws) ! (length ws - k))) \<and>
   (stack w = [] \<longrightarrow> jumpBack w = Some w)"
proof (intro conjI impI)
  assume a: "jumpTo w = Some w' \<and> w' \<noteq> w"
  then obtain run where w': "w' = jumped (ParseInt run) w"
    by (blast elim: jumpTo_moved)
  show "stack w' = stack w @ [(cursor w, offset w)]" by (simp add: w' jumped_def)
  show "jumpBack w' = Some w" by (simp add: w' jumpBack_jumped)
next
  assume "jump_chain w ws \<and> k \<le> length ws"
  then have "jump_chain w ws" "k \<le> length ws" by simp_all
  then show "jumpBacks k (last (w # ws)) = Some ((w # ws) ! (length ws - k))"
    by (rule jump_chain_back)
next
  assume "stack w = []"
  then show "jumpBack w = Some w" by (rule jumpBack_empty)
qed

text \<open>The theorem at the jump to address 399 and the jump back.\<close>

theorem jump_round_trip_witness:
  "jumpTo (window_of 16 10 400 0 0 [] data_399) = Some (window_of 16 10 400 336 399 [(0, 0)] data_399) \<and>
   stack (window_of 16 10 400 336 399 [(0, 0)] data_399) =
     stack (window_of 16 10 400 0 0 [] data_399) @
     [(cursor (window_of 16 10 400 0 0 [] data_399), offset (window_of 16 10 400 0 0 [] data_399))] \<and>
   jumpBack (window_of 16 10 400 336 399 [(0, 0)] data_399) = Some (window_of 16 10 400 0 0 [] data_399)"
proof -
  have "window_of 16 10 400 336 399 [(0, 0)] data_399 \<noteq> window_of 16 10 400 0 0 [] data_399"
    by (simp add: window_of_def)
  with jump_round_trip [of "window_of 16 10 400 0 0 [] data_399"
      "window_of 16 10 400 336 399 [(0, 0)] data_399" "[]" 0] ex_jumpTo
  show ?thesis by simp
qed

text \<open>
  C6 (jump-to-address validity and atomicity). With a width other than 0, \<open>jumpTo\<close> always
  returns a window. When the window it returns differs from the one it got, it located a
  run of decimal digits whose value \<open>v\<close> satisfies \<open>0 < v < length\<close>, the cursor is \<open>v\<close> and
  the old cursor and offset are pushed. When the read fails, when no run is located, when
  the value of the run is out of range, or when the run does not fit an \<open>int64\<close>, it returns
  the window unchanged.
\<close>

theorem jumpTo_validity:
  "(width w \<noteq> 0 \<longrightarrow> (\<exists>w'. jumpTo w = Some w')) \<and>
   (\<forall>w'. jumpTo w = Some w' \<and> w' \<noteq> w \<longrightarrow>
      (\<exists>run. located_run w = Some run \<and> run \<noteq> [] \<and> list_all isDigit run \<and>
         0 < ParseInt run \<and> ParseInt run < length_w w \<and>
         cursor w' = ParseInt run \<and> stack w' = stack w @ [(cursor w, offset w)])) \<and>
   (buf_fails (buffer w) \<longrightarrow> jumpTo w = Some w) \<and>
   (located_run w = None \<longrightarrow> jumpTo w = Some w) \<and>
   (\<forall>run. located_run w = Some run \<and> (ParseInt run \<le> 0 \<or> length_w w \<le> ParseInt run) \<longrightarrow>
      jumpTo w = Some w) \<and>
   (\<forall>run. located_run w = Some run \<and> 2 ^ 63 \<le> int (decimal run) \<and> length_w w < 2 ^ 63 \<longrightarrow>
      jumpTo w = Some w)"
proof (intro conjI allI impI)
  assume "width w \<noteq> 0"
  then show "\<exists>w'. jumpTo w = Some w'"
    by (simp add: jumpTo_located split: option.splits)
next
  fix w' assume a: "jumpTo w = Some w' \<and> w' \<noteq> w"
  then obtain run where r: "located_run w = Some run" "0 < ParseInt run" "ParseInt run < length_w w"
      "w' = jumped (ParseInt run) w"
    by (blast elim: jumpTo_moved)
  from located_run_digits [OF r(1)] r
  show "\<exists>run. located_run w = Some run \<and> run \<noteq> [] \<and> list_all isDigit run \<and>
         0 < ParseInt run \<and> ParseInt run < length_w w \<and>
         cursor w' = ParseInt run \<and> stack w' = stack w @ [(cursor w, offset w)]"
    by (simp add: jumped_def)
next
  assume "buf_fails (buffer w)"
  then show "jumpTo w = Some w" by (simp add: jumpTo_located located_run_fails)
next
  assume "located_run w = None"
  then show "jumpTo w = Some w" by (simp add: jumpTo_located)
next
  fix run assume "located_run w = Some run \<and> (ParseInt run \<le> 0 \<or> length_w w \<le> ParseInt run)"
  then show "jumpTo w = Some w" by (auto simp: jumpTo_located)
next
  fix run assume a: "located_run w = Some run \<and> 2 ^ 63 \<le> int (decimal run) \<and> length_w w < 2 ^ 63"
  then have "run \<noteq> []" "list_all isDigit run" using located_run_digits by blast+
  from ParseInt_digits [OF this] a have "ParseInt run = 2 ^ 63 - 1" by simp
  with a show "jumpTo w = Some w" by (simp add: jumpTo_located)
qed

text \<open>The theorem at the jump to address 399.\<close>

theorem jumpTo_validity_witness:
  "\<exists>run. located_run (window_of 16 10 400 0 0 [] data_399) = Some run \<and> run \<noteq> [] \<and>
     list_all isDigit run \<and> 0 < ParseInt run \<and>
     ParseInt run < length_w (window_of 16 10 400 0 0 [] data_399) \<and>
     cursor (window_of 16 10 400 336 399 [(0, 0)] data_399) = ParseInt run \<and>
     stack (window_of 16 10 400 336 399 [(0, 0)] data_399) =
       stack (window_of 16 10 400 0 0 [] data_399) @
       [(cursor (window_of 16 10 400 0 0 [] data_399), offset (window_of 16 10 400 0 0 [] data_399))]"
proof -
  have "window_of 16 10 400 336 399 [(0, 0)] data_399 \<noteq> window_of 16 10 400 0 0 [] data_399"
    by (simp add: window_of_def)
  with jumpTo_validity [of "window_of 16 10 400 0 0 [] data_399"] ex_jumpTo
  show ?thesis by blast
qed

lemma last_row_start:
  fixes L W :: int
  assumes "0 < W"
  shows "((max L 1 + W - 1) div W - 1) * W = max (L - 1) 0 div W * W"
proof -
  have "(max L 1 + W - 1) div W = (max L 1 - 1) div W + 1" by (rule rows_last [OF assms])
  moreover have "max L 1 - 1 = max (L - 1) 0" by simp
  ultimately show ?thesis by simp
qed

text \<open>
  C7 (page end and page top). With positive width and height and sizes within \<open>int64\<close>,
  \<open>pageEnd\<close> sets the offset to \<open>max((\<lceil>length/width\<rceil> - height) * width, 0)\<close> and the cursor to
  the first address of the row of the last byte; \<open>pageTop\<close> sets both to 0. With width 16,
  height 10 and length 400, \<open>pageEnd\<close> gives offset 240 and cursor 384, and \<open>pageTop\<close> after it
  gives offset 0 and cursor 0.
\<close>

theorem page_end_top:
  assumes "0 < width w" and "0 < height w" and "no_overflow w"
  shows "pageEnd w =
           Some (w\<lparr>offset := max ((\<lceil>real_of_int (length_w w) / real_of_int (width w)\<rceil> - height w) * width w) 0,
                   cursor := max (length_w w - 1) 0 div width w * width w\<rparr>) \<and>
         pageTop w = Some (w\<lparr>offset := 0, cursor := 0\<rparr>) \<and>
         pageEnd (window_of 16 10 400 0 0 [] []) = Some (window_of 16 10 400 240 384 [] []) \<and>
         pageTop (window_of 16 10 400 240 384 [] []) = Some (window_of 16 10 400 0 0 [] [])"
proof -
  note lp = last_page [OF assms]
  have "pageEnd w =
     Some (w\<lparr>offset := max (((length_w w + width w - 1) div width w - height w) * width w) 0,
             cursor := ((max (length_w w) 1 + width w - 1) div width w - 1) * width w\<rparr>)"
    using assms(1) by (simp add: pageEnd_def lp(1) lp(2))
  then have "pageEnd w =
           Some (w\<lparr>offset := max ((\<lceil>real_of_int (length_w w) / real_of_int (width w)\<rceil> - height w) * width w) 0,
                   cursor := max (length_w w - 1) 0 div width w * width w\<rparr>)"
    by (simp only: ceiling_rows [OF assms(1)] last_row_start [OF assms(1)])
  moreover have "pageTop w = Some (w\<lparr>offset := 0, cursor := 0\<rparr>)"
    by (simp add: pageTop_def)
  ultimately show ?thesis
    using ex_pageEnd ex_pageTop by blast
qed

text \<open>The theorem at width 16, height 10 and length 400.\<close>

theorem page_end_top_witness:
  "pageEnd (window_of 16 10 400 0 0 [] []) =
     Some ((window_of 16 10 400 0 0 [] [])\<lparr>offset := 240, cursor := 384\<rparr>) \<and>
   pageTop (window_of 16 10 400 0 0 [] []) = Some ((window_of 16 10 400 0 0 [] [])\<lparr>offset := 0, cursor := 0\<rparr>)"
proof -
  have 1: "0 < width (window_of 16 10 400 0 0 [] [])" by (simp add: window_of_def)
  have 2: "0 < height (window_of 16 10 400 0 0 [] [])" by (simp add: window_of_def)
  have 3: "no_overflow (window_of 16 10 400 0 0 [] [])" by (rule ex_no_overflow)
  from page_end_top [OF 1 2 3] show ?thesis
    by (simp add: window_of_def)
qed

text \<open>
  C10 (scan window of \<open>jumpTo\<close>). For a cursor that is not negative and a buffer that can
  be read, \<open>jumpTo\<close> reads 100 bytes from address \<open>max(cursor - 50, 0)\<close>, zero bytes standing
  for the bytes beyond the data, and starts at index 50 of them, which is the address
  \<open>max(cursor, 50)\<close>: when that byte is neither white nor a digit, nothing is found whatever
  the other bytes are. When the white bytes from index 50 reach the right edge, or the
  digits that follow them do, \<open>jumpTo\<close> returns the window unchanged.
\<close>

theorem scan_window:
  assumes "0 \<le> cursor w" and "cursor w < 2 ^ 63" and "\<not> buf_fails (buffer w)"
  shows "readBytes w (MaxInt64 (sub64 (cursor w) (int 50)) 0) (2 * 50) =
           Some (length (take 100 (drop (scan_start w) (buf_data (buffer w)))), scanned w) \<and>
         length (scanned w) = 100 \<and>
         int (scan_start w) = max (cursor w - 50) 0 \<and>
         int (scan_start w + 50) = max (cursor w) 50 \<and>
         (\<forall>k<100. scanned w ! k =
            (if scan_start w + k < length (buf_data (buffer w))
             then buf_data (buffer w) ! (scan_start w + k) else CHR 0x00)) \<and>
         (\<not> isWhite (scanned w ! 50) \<and> \<not> isDigit (scanned w ! 50) \<longrightarrow> jumpTo w = Some w) \<and>
         ((\<forall>k. 50 \<le> k \<and> k < 100 \<longrightarrow> isWhite (scanned w ! k)) \<longrightarrow> jumpTo w = Some w) \<and>
         (\<forall>i. 50 \<le> i \<and> i < 100 \<and> (\<forall>k. 50 \<le> k \<and> k < i \<longrightarrow> isWhite (scanned w ! k)) \<and>
               (\<forall>k. i \<le> k \<and> k < 100 \<longrightarrow> isDigit (scanned w ! k)) \<longrightarrow> jumpTo w = Some w)"
proof (intro conjI allI impI)
  show "readBytes w (MaxInt64 (sub64 (cursor w) (int 50)) 0) (2 * 50) =
           Some (length (take 100 (drop (scan_start w) (buf_data (buffer w)))), scanned w)"
    by (rule readBytes_scanned [OF assms])
  show "length (scanned w) = 100" by (rule length_scanned)
  show "int (scan_start w) = max (cursor w - 50) 0" by (simp add: scan_start_def)
  show "int (scan_start w + 50) = max (cursor w) 50" by (simp add: scan_start_def)
next
  fix k :: nat assume "k < 100"
  then show "scanned w ! k =
            (if scan_start w + k < length (buf_data (buffer w))
             then buf_data (buffer w) ! (scan_start w + k) else CHR 0x00)"
    by (rule scanned_nth)
next
  assume "\<not> isWhite (scanned w ! 50) \<and> \<not> isDigit (scanned w ! 50)"
  then have "located_run w = None" using scan_rejects_other [OF assms] by blast
  then show "jumpTo w = Some w" by (simp add: jumpTo_located)
next
  assume "\<forall>k. 50 \<le> k \<and> k < 100 \<longrightarrow> isWhite (scanned w ! k)"
  then have "located_run w = None" by (rule scan_rejects_white [OF assms])
  then show "jumpTo w = Some w" by (simp add: jumpTo_located)
next
  fix i assume a: "50 \<le> i \<and> i < 100 \<and> (\<forall>k. 50 \<le> k \<and> k < i \<longrightarrow> isWhite (scanned w ! k)) \<and>
               (\<forall>k. i \<le> k \<and> k < 100 \<longrightarrow> isDigit (scanned w ! k))"
  then have "located_run w = None" using scan_rejects_edge [OF assms, of i] by blast
  then show "jumpTo w = Some w" by (simp add: jumpTo_located)
qed

text \<open>
  The theorem at cursor 3 in data of fifty digits followed by "x": the cursor is on a digit,
  the scan starts at address 50, the "x", and nothing is found.
\<close>

theorem scan_window_witness:
  "0 \<le> cursor (window_of 16 10 51 0 3 [] data_x) \<and>
   int (scan_start (window_of 16 10 51 0 3 [] data_x) + 50) = 50 \<and>
   isDigit (data_x ! 3) \<and>
   scanned (window_of 16 10 51 0 3 [] data_x) ! 50 = CHR ''x'' \<and>
   jumpTo (window_of 16 10 51 0 3 [] data_x) = Some (window_of 16 10 51 0 3 [] data_x)"
proof -
  let ?w = "window_of 16 10 51 0 3 [] data_x"
  have 1: "0 \<le> cursor ?w" by (simp add: window_of_def)
  have 2: "cursor ?w < 2 ^ 63" by (simp add: window_of_def)
  have 3: "\<not> buf_fails (buffer ?w)" by (simp add: window_of_def)
  have s: "scan_start ?w = 0" by (simp add: scan_start_def window_of_def)
  have x: "scanned ?w ! 50 = CHR ''x''"
    by (simp add: scanned_nth s) (simp add: window_of_def data_x_def nth_append)
  have d: "isDigit (data_x ! 3)" by (simp add: data_x_def nth_append isDigit_def)
  have n: "\<not> isWhite (CHR ''x'')" "\<not> isDigit (CHR ''x'')" by (simp_all add: isWhite_def isDigit_def)
  from scan_window [OF 1 2 3] x n have "jumpTo ?w = Some ?w" by simp
  with 1 s x d show ?thesis by simp
qed

end
